theory Spec2Isabelle
  imports Complex_Main "HOL-Library.Word" "HOL-Library.Sublist"
begin

unbundle bit_operations_syntax

section \<open>Machine types shared by the C extensions\<close>

type_synonym u8 = "8 word"
type_synonym u16 = "16 word"
type_synonym u32 = "32 word"
type_synonym u64 = "64 word"

text \<open>
  A Python \<open>bytes\<close> object and a C buffer are lists of bytes; Isabelle's \<open>char\<close> is a
  byte, so both are \<open>string\<close>s here. A Python \<open>str\<close> is represented by its
  UTF-8 encoding, which makes \<open>.encode('utf-8')\<close> the identity on the representation,
  and \<open>.decode('utf-8')\<close> the identity on the bytes that are well-formed UTF-8; on
  other bytes \<open>decode\<close> raises \<open>UnicodeDecodeError\<close>.
\<close>

type_synonym bytes = string

text \<open>
  Well-formed UTF-8, as the decoder of CPython accepts it: the shortest encoding of a
  code point up to \<open>U+10FFFF\<close> that is not a surrogate.
\<close>

definition utf8_tail :: "char \<Rightarrow> bool" where
  "utf8_tail c \<longleftrightarrow> 0x80 \<le> (of_char c :: nat) \<and> (of_char c :: nat) \<le> 0xBF"

fun utf8_valid :: "bytes \<Rightarrow> bool" where
  "utf8_valid [] = True"
| "utf8_valid (c # cs) =
     (let b = (of_char c :: nat) in
      if b < 0x80 then utf8_valid cs
      else if 0xC2 \<le> b \<and> b \<le> 0xDF then
        (case cs of
           c1 # r \<Rightarrow> utf8_tail c1 \<and> utf8_valid r
         | _ \<Rightarrow> False)
      else if 0xE0 \<le> b \<and> b \<le> 0xEF then
        (case cs of
           c1 # c2 # r \<Rightarrow>
             (if b = 0xE0 then 0xA0 \<le> (of_char c1 :: nat) \<and> (of_char c1 :: nat) \<le> 0xBF
              else if b = 0xED then 0x80 \<le> (of_char c1 :: nat) \<and> (of_char c1 :: nat) \<le> 0x9F
              else utf8_tail c1) \<and>
             utf8_tail c2 \<and> utf8_valid r
         | _ \<Rightarrow> False)
      else if 0xF0 \<le> b \<and> b \<le> 0xF4 then
        (case cs of
           c1 # c2 # c3 # r \<Rightarrow>
             (if b = 0xF0 then 0x90 \<le> (of_char c1 :: nat) \<and> (of_char c1 :: nat) \<le> 0xBF
              else if b = 0xF4 then 0x80 \<le> (of_char c1 :: nat) \<and> (of_char c1 :: nat) \<le> 0x8F
              else utf8_tail c1) \<and>
             utf8_tail c2 \<and> utf8_tail c3 \<and> utf8_valid r
         | _ \<Rightarrow> False)
      else False)"

text \<open>\<open>data_bytes.decode('utf-8')\<close>, with \<open>None\<close> for the exception.\<close>

definition decode_utf8 :: "bytes \<Rightarrow> bytes option" where
  "decode_utf8 b = (if utf8_valid b then Some b else None)"

text \<open>
  How a call can fail. \<open>MemoryError\<close>, \<open>ValueError\<close> and \<open>UnicodeEncodeError\<close> are
  Python exceptions, \<open>OtherException\<close> is any other exception that code of the caller
  raises; the remaining values mark the points at which the compiled C code has no
  defined behaviour (the extensions are compiled with \<open>cdivision=True\<close> and
  \<open>boundscheck=False\<close>).
\<close>

datatype failure =
  MemoryError | ValueError | UnicodeEncodeError | OtherException
| DivisionByZero | OutOfBounds | ConversionOutOfRange | SignedOverflow

text \<open>
  The Python objects handed to the extensions: \<open>None\<close>, a boolean, an integer, a
  string (\<open>PyStr s\<close> is the \<open>str\<close> whose UTF-8 encoding is \<open>s\<close>), or any other object,
  which is given by what \<open>str(data).encode('utf-8')\<close> does with it: raise an exception, or
  return its bytes. A string that cannot be encoded (it holds a lone surrogate) is such
  an object, with the outcome \<open>UnicodeEncodeError\<close>.
\<close>

datatype pyobj = PyNone | PyBool bool | PyInt int | PyStr bytes | PyObject "failure + bytes"

fun str_nat :: "nat \<Rightarrow> string" where
  "str_nat n = (if n < 10 then [''0123456789'' ! n]
                else str_nat (n div 10) @ [''0123456789'' ! (n mod 10)])"

declare str_nat.simps [simp del]

text \<open>
  \<open>str(data).encode('utf-8')\<close>. \<open>max_str_digits\<close> is the value of
  \<open>sys.get_int_max_str_digits()\<close>: since CPython 3.11, \<open>str\<close> of an integer with more
  decimal digits than this limit raises \<open>ValueError\<close>; the limit is 4300 unless the program
  sets it, and 0 stands for no limit, as in the earlier versions.
\<close>

fun py_str :: "nat \<Rightarrow> pyobj \<Rightarrow> failure + bytes" where
  "py_str max_str_digits PyNone = Inr ''None''"
| "py_str max_str_digits (PyBool b) = Inr (if b then ''True'' else ''False'')"
| "py_str max_str_digits (PyInt i) =
     (if 0 < max_str_digits \<and> max_str_digits < length (str_nat (nat \<bar>i\<bar>))
      then Inl ValueError
      else Inr (if i < 0 then CHR ''-'' # str_nat (nat (- i)) else str_nat (nat i)))"
| "py_str max_str_digits (PyStr s) = Inr s"
| "py_str max_str_digits (PyObject r) = r"

section \<open>Lock-free queue (lock\_free\_queue.pyx)\<close>

subsection \<open>Data\<close>

text \<open>
  \<open>queue_node\<close>: the \<open>data\<close> pointer is \<open>None\<close> for \<open>NULL\<close> and \<open>Some bs\<close>
  for a buffer obtained from \<open>PyMem_Malloc\<close> that holds the bytes \<open>bs\<close>. Every
  buffer is owned by exactly one node or one caller, so no aliasing arises.
\<close>

record queue_node =
  node_data :: "bytes option"
  node_data_size :: u32
  node_next :: "nat option"
  node_sequence :: u64

record lock_free_queue =
  q_nodes :: "queue_node list"
  q_capacity :: u32
  q_mask :: u32
  q_head_seq :: u64
  q_tail_seq :: u64
  q_committed_seq :: u64
  q_total_enqueued :: u64
  q_total_dequeued :: u64
  q_total_failed_enqueues :: u64
  q_total_failed_dequeues :: u64
  q_initialized :: bool

definition DEFAULT_QUEUE_SIZE :: u32 where
  "DEFAULT_QUEUE_SIZE = 65536"

subsection \<open>Construction\<close>

definition initialize_nodes :: "u32 \<Rightarrow> queue_node list" where
  "initialize_nodes cap =
     map (\<lambda>i. \<lparr>node_data = None, node_data_size = 0, node_next = None,
               node_sequence = word_of_nat i\<rparr>) [0..<unat cap]"

text \<open>
  \<open>__cinit__(capacity)\<close>. The argument is already a \<open>uint32_t\<close>. \<open>malloc_ok\<close> says
  whether \<open>malloc\<close> of the node array succeeds.
\<close>

definition LockFreeQueue_cinit :: "bool \<Rightarrow> u32 \<Rightarrow> failure + lock_free_queue" where
  "LockFreeQueue_cinit malloc_ok capacity0 =
     (let capacity = (if capacity0 = 0 \<or> capacity0 AND (capacity0 - 1) \<noteq> 0
                      then DEFAULT_QUEUE_SIZE else capacity0)
      in if \<not> malloc_ok then Inl MemoryError
         else Inr \<lparr>q_nodes = initialize_nodes capacity,
                   q_capacity = capacity,
                   q_mask = capacity - 1,
                   q_head_seq = 0,
                   q_tail_seq = 0,
                   q_committed_seq = 0,
                   q_total_enqueued = 0,
                   q_total_dequeued = 0,
                   q_total_failed_enqueues = 0,
                   q_total_failed_dequeues = 0,
                   q_initialized = True\<rparr>)"

subsection \<open>The ring operations\<close>

text \<open>
  \<open>compare_and_swap(<volatile int*>&var, old_val, new_val)\<close>: the extern helper takes an
  \<open>int*\<close> and two \<open>int\<close>s, so on the little-endian targets of the extension (arm64
  macOS, x86-64 Linux) it compares and replaces the four low-order bytes of the 64-bit
  counter and leaves the four high-order bytes alone. The result is the success flag and
  the new content of the counter.
\<close>

definition compare_and_swap :: "u64 \<Rightarrow> u64 \<Rightarrow> u64 \<Rightarrow> bool \<times> u64" where
  "compare_and_swap var old_val new_val =
     (if (ucast var :: u32) = ucast old_val
      then (True, (var AND NOT (mask 32)) OR ucast (ucast new_val :: u32))
      else (False, var))"

text \<open>
  \<open>_try_enqueue_fast\<close>, run by one thread at a time. The \<open>while True\<close> loop is the
  recursion; a run that never leaves the loop is the value \<open>None\<close>.
\<close>

partial_function (option) try_enqueue_fast ::
  "lock_free_queue \<Rightarrow> bytes \<Rightarrow> u32 \<Rightarrow> (bool \<times> lock_free_queue) option" where
  "try_enqueue_fast q d data_size =
     (let current_tail = q_tail_seq q;
          next_tail = current_tail + 1;
          index = unat (ucast (current_tail AND ucast (q_mask q)) :: u32);
          node = q_nodes q ! index
      in if node_sequence node \<noteq> current_tail then
           (if node_sequence node < current_tail then Some (False, q)
            else try_enqueue_fast q d data_size)
         else
           (let cas = compare_and_swap (q_tail_seq q) current_tail next_tail;
                q1 = q\<lparr>q_tail_seq := snd cas\<rparr>
            in if fst cas then
                 Some (True, q1\<lparr>q_nodes := (q_nodes q1)[index :=
                          node\<lparr>node_data := Some d, node_data_size := data_size,
                               node_sequence := next_tail\<rparr>]\<rparr>)
               else try_enqueue_fast q1 d data_size))"

text \<open>
  \<open>_try_dequeue_fast\<close>: the result carries the two out-parameters \<open>data[0]\<close> and
  \<open>data_size[0]\<close>, which keep the caller's initial values \<open>NULL\<close> and \<open>0\<close> when
  the call returns false.
\<close>

partial_function (option) try_dequeue_fast ::
  "lock_free_queue \<Rightarrow> (bool \<times> bytes option \<times> u32 \<times> lock_free_queue) option" where
  "try_dequeue_fast q =
     (let current_head = q_head_seq q;
          next_head = current_head + 1;
          index = unat (ucast (current_head AND ucast (q_mask q)) :: u32);
          node = q_nodes q ! index
      in if node_sequence node \<noteq> next_head then
           (if node_sequence node < next_head then Some (False, None, 0, q)
            else try_dequeue_fast q)
         else
           (let cas = compare_and_swap (q_head_seq q) current_head next_head;
                q1 = q\<lparr>q_head_seq := snd cas\<rparr>
            in if fst cas then
                 Some (True, node_data node, node_data_size node,
                       q1\<lparr>q_nodes := (q_nodes q1)[index :=
                          node\<lparr>node_data := None, node_data_size := 0,
                               node_sequence := next_head + ucast (q_mask q1)\<rparr>]\<rparr>)
               else try_dequeue_fast q1))"

text \<open>The slot that the next enqueue, respectively the next dequeue, looks at.\<close>

definition enq_slot :: "lock_free_queue \<Rightarrow> nat" where
  "enq_slot q = unat (ucast (q_tail_seq q AND ucast (q_mask q)) :: u32)"

definition deq_slot :: "lock_free_queue \<Rightarrow> nat" where
  "deq_slot q = unat (ucast (q_head_seq q AND ucast (q_mask q)) :: u32)"

subsection \<open>The Python-level interface\<close>

text \<open>
  \<open>enqueue(data)\<close>. The result is \<open>Inr\<close> of the value returned, or \<open>Inl\<close> of the exception
  that \<open>str(data).encode('utf-8')\<close> raises, which leaves the queue as it was.
  \<open>malloc_ok\<close> says whether \<open>PyMem_Malloc\<close> returns a buffer. \<open>data_size\<close> is the length
  of the serialized form as a \<open>uint32_t\<close>, and the buffer receives \<open>data_size\<close> bytes of it
  by \<open>memcpy\<close>.
\<close>

definition enqueue ::
  "nat \<Rightarrow> lock_free_queue \<Rightarrow> pyobj \<Rightarrow> bool \<Rightarrow> ((failure + bool) \<times> lock_free_queue) option" where
  "enqueue max_str_digits q data malloc_ok =
     (if \<not> q_initialized q then Some (Inr False, q)
      else
        case py_str max_str_digits data of
          Inl e \<Rightarrow> Some (Inl e, q)
        | Inr serialized_data \<Rightarrow>
            let data_size = (word_of_nat (length serialized_data) :: u32)
            in if \<not> malloc_ok then
                 Some (Inr False,
                       q\<lparr>q_total_failed_enqueues := q_total_failed_enqueues q + 1\<rparr>)
               else
                 (case try_enqueue_fast q (take (unat data_size) serialized_data) data_size of
                    None \<Rightarrow> None
                  | Some (success, q') \<Rightarrow>
                      if success
                      then Some (Inr True, q'\<lparr>q_total_enqueued := q_total_enqueued q' + 1\<rparr>)
                      else Some (Inr False,
                        q'\<lparr>q_total_failed_enqueues := q_total_failed_enqueues q' + 1\<rparr>)))"

text \<open>
  \<open>dequeue()\<close> returns the decoded string, or \<open>None\<close>: when the ring gives nothing, and
  also when it gives bytes that \<open>decode\<close> rejects, which the \<open>except\<close> clause turns into
  \<open>None\<close> after the item has left the ring.
\<close>

definition dequeue :: "lock_free_queue \<Rightarrow> (bytes option \<times> lock_free_queue) option" where
  "dequeue q =
     (case try_dequeue_fast q of
        None \<Rightarrow> None
      | Some (success, data_ptr, data_size, q') \<Rightarrow>
          (case data_ptr of
             Some buf \<Rightarrow> if success then Some (decode_utf8 (take (unat data_size) buf), q')
                         else Some (None, q')
           | None \<Rightarrow> Some (None, q')))"

definition is_empty :: "lock_free_queue \<Rightarrow> bool" where
  "is_empty q = (q_head_seq q = q_tail_seq q)"

definition q_size :: "lock_free_queue \<Rightarrow> u64" where
  "q_size q = q_tail_seq q - q_head_seq q"

definition is_full :: "lock_free_queue \<Rightarrow> bool" where
  "is_full q = (q_size q \<ge> ucast (q_capacity q))"

text \<open>The integer entries of the dictionary that \<open>get_statistics()\<close> returns.\<close>

record queue_statistics =
  st_capacity :: u32
  st_size :: u64
  st_total_enqueued :: u64
  st_total_dequeued :: u64
  st_total_failed_enqueues :: u64
  st_total_failed_dequeues :: u64
  st_is_empty :: bool
  st_is_full :: bool

definition get_statistics :: "lock_free_queue \<Rightarrow> queue_statistics" where
  "get_statistics q =
     \<lparr>st_capacity = q_capacity q,
      st_size = q_size q,
      st_total_enqueued = q_total_enqueued q,
      st_total_dequeued = q_total_dequeued q,
      st_total_failed_enqueues = q_total_failed_enqueues q,
      st_total_failed_dequeues = q_total_failed_dequeues q,
      st_is_empty = is_empty q,
      st_is_full = is_full q\<rparr>"

subsection \<open>Runs of one producer and one consumer\<close>

text \<open>
  A run is a list of calls on one queue, executed one after the other: each call returns
  before the next one begins, whichever thread makes it. (The two ring functions run with
  the GIL released, so the calls of a producer thread and a consumer thread can overlap
  in the program; the runs do not cover such an execution.) A run has a value only if
  every call returns or raises; a call that raises leaves the queue to the next call.
\<close>

datatype q_op = Enqueue pyobj bool | Dequeue

datatype q_result = Enqueued bool | EnqueueRaised failure | Dequeued "bytes option"

fun run_ops ::
  "nat \<Rightarrow> lock_free_queue \<Rightarrow> q_op list \<Rightarrow> (q_result list \<times> lock_free_queue) option" where
  "run_ops md q [] = Some ([], q)"
| "run_ops md q (Enqueue data malloc_ok # ops) =
     (case enqueue md q data malloc_ok of
        None \<Rightarrow> None
      | Some (r, q') \<Rightarrow>
          (case run_ops md q' ops of
             None \<Rightarrow> None
           | Some (rs, q'') \<Rightarrow>
               Some ((case r of Inl e \<Rightarrow> EnqueueRaised e | Inr b \<Rightarrow> Enqueued b) # rs, q'')))"
| "run_ops md q (Dequeue # ops) =
     (case dequeue q of
        None \<Rightarrow> None
      | Some (v, q') \<Rightarrow>
          (case run_ops md q' ops of
             None \<Rightarrow> None
           | Some (rs, q'') \<Rightarrow> Some (Dequeued v # rs, q'')))"

text \<open>The values accepted by successful \<open>enqueue\<close> calls, in call order.\<close>

fun pushed :: "q_op list \<Rightarrow> q_result list \<Rightarrow> pyobj list" where
  "pushed (Enqueue data m # ops) (Enqueued b # rs) =
     (if b then data # pushed ops rs else pushed ops rs)"
| "pushed (op # ops) (r # rs) = pushed ops rs"
| "pushed _ _ = []"

text \<open>The values returned by successful \<open>dequeue\<close> calls, in call order.\<close>

fun popped :: "q_result list \<Rightarrow> bytes list" where
  "popped [] = []"
| "popped (Dequeued (Some v) # rs) = v # popped rs"
| "popped (r # rs) = popped rs"

text \<open>
  What the queue keeps of a serialized form: its first \<open>data_size\<close> bytes, where
  \<open>data_size\<close> is the length as a \<open>uint32_t\<close>. \<open>stored_form\<close> is what \<open>dequeue\<close>
  returns for a value that \<open>enqueue\<close> has accepted, once the value is the oldest in the
  queue: the decoded bytes, or \<open>None\<close> when the bytes kept do not decode. \<open>present\<close>
  drops the entries \<open>None\<close> from a list.
\<close>

definition stored_buffer :: "bytes \<Rightarrow> bytes" where
  "stored_buffer b = take (unat (word_of_nat (length b) :: u32)) b"

definition stored_form :: "nat \<Rightarrow> pyobj \<Rightarrow> bytes option" where
  "stored_form md data =
     (case py_str md data of
        Inl e \<Rightarrow> None
      | Inr b \<Rightarrow> decode_utf8 (stored_buffer b))"

fun present :: "'a option list \<Rightarrow> 'a list" where
  "present [] = []"
| "present (None # xs) = present xs"
| "present (Some x # xs) = x # present xs"

subsection \<open>Capacities that are powers of two\<close>

text \<open>The capacities the specification admits: \<open>2 ^ k\<close> for a \<open>k\<close> below 32.\<close>

definition is_power_of_two :: "u32 \<Rightarrow> bool" where
  "is_power_of_two c = (\<exists>k \<in> set [0..<32]. c = 2 ^ k)"

subsection \<open>The state of the ring, for the proofs\<close>

text \<open>
  \<open>ring_inv k q H T items\<close>: the queue \<open>q\<close> of capacity \<open>2 ^ k\<close> has seen \<open>T\<close>
  successful enqueues and \<open>H\<close> successful dequeues, and \<open>items\<close> are the buffers it
  holds, oldest first. Position \<open>p\<close> of the stream lives in slot \<open>p mod 2 ^ k\<close>.
\<close>

definition filled :: "queue_node \<Rightarrow> bytes \<times> u32 \<Rightarrow> nat \<Rightarrow> bool" where
  "filled n it p \<longleftrightarrow>
     node_data n = Some (fst it) \<and> node_data_size n = snd it \<and>
     node_sequence n = word_of_nat (p + 1)"

definition ring_inv ::
  "nat \<Rightarrow> lock_free_queue \<Rightarrow> nat \<Rightarrow> nat \<Rightarrow> (bytes \<times> u32) list \<Rightarrow> bool" where
  "ring_inv k q H T items \<longleftrightarrow>
     k < 32 \<and> q_capacity q = 2 ^ k \<and> q_mask q = 2 ^ k - 1 \<and> length (q_nodes q) = 2 ^ k \<and>
     H \<le> T \<and> T \<le> H + 2 ^ k \<and> T \<le> 2 ^ 32 \<and> length items = T - H \<and>
     q_tail_seq q = word_of_nat (T mod 2 ^ 32) \<and>
     q_head_seq q = word_of_nat (H mod 2 ^ 32) \<and>
     (\<forall>p. H \<le> p \<and> p < T \<longrightarrow> filled (q_nodes q ! (p mod 2 ^ k)) (items ! (p - H)) p) \<and>
     (\<forall>p. T \<le> p \<and> p < H + 2 ^ k \<longrightarrow>
          node_sequence (q_nodes q ! (p mod 2 ^ k)) = word_of_nat p)"

definition item_value :: "bytes \<times> u32 \<Rightarrow> bytes" where
  "item_value it = take (unat (snd it)) (fst it)"

text \<open>
  \<open>stuck q\<close>: the state a queue of capacity 1 reaches when a second value is enqueued
  before the first one is dequeued. The one slot then carries a sequence number beyond
  \<open>head + 1\<close>, and no dequeue returns any more.
\<close>

definition stuck :: "lock_free_queue \<Rightarrow> bool" where
  "stuck q \<longleftrightarrow>
     q_mask q = 0 \<and> q_nodes q \<noteq> [] \<and> unat (q_tail_seq q) < 2 ^ 32 \<and>
     unat (q_head_seq q) + 1 < unat (node_sequence (q_nodes q ! 0))"

subsection \<open>The bounded FIFO of the specification\<close>

text \<open>
  The queue as the specification describes it: a list of at most \<open>cap\<close> values,
  \<open>try_push\<close> appends unless the list is full (or no buffer can be allocated),
  \<open>try_pop\<close> takes the oldest value unless the list is empty. The values of the list are
  the stored forms, what \<open>dequeue\<close> will return for them; a value that cannot be
  serialized raises and is not appended. \<open>fifo_run md cap xs ops\<close> are the results of the
  calls \<open>ops\<close> on the content \<open>xs\<close>.
\<close>

fun fifo_run :: "nat \<Rightarrow> nat \<Rightarrow> bytes option list \<Rightarrow> q_op list \<Rightarrow> q_result list" where
  "fifo_run md cap xs [] = []"
| "fifo_run md cap xs (Enqueue data malloc_ok # ops) =
     (case py_str md data of
        Inl e \<Rightarrow> EnqueueRaised e # fifo_run md cap xs ops
      | Inr b \<Rightarrow>
          if malloc_ok \<and> length xs < cap
          then Enqueued True # fifo_run md cap (xs @ [stored_form md data]) ops
          else Enqueued False # fifo_run md cap xs ops)"
| "fifo_run md cap xs (Dequeue # ops) =
     (case xs of
        [] \<Rightarrow> Dequeued None # fifo_run md cap [] ops
      | x # xs' \<Rightarrow> Dequeued x # fifo_run md cap xs' ops)"

subsection \<open>Batches of ring operations\<close>

text \<open>
  \<open>push_all q ds\<close> calls \<open>_try_enqueue_fast\<close> once for each buffer of \<open>ds\<close> (a buffer
  and its size), \<open>pop_n q n\<close> calls \<open>_try_dequeue_fast\<close> \<open>n\<close> times; both collect the
  results of the calls.
\<close>

fun push_all ::
  "lock_free_queue \<Rightarrow> (bytes \<times> u32) list \<Rightarrow> (bool list \<times> lock_free_queue) option" where
  "push_all q [] = Some ([], q)"
| "push_all q (d # ds) =
     (case try_enqueue_fast q (fst d) (snd d) of
        None \<Rightarrow> None
      | Some (b, q') \<Rightarrow>
          (case push_all q' ds of
             None \<Rightarrow> None
           | Some (bs, q'') \<Rightarrow> Some (b # bs, q'')))"

fun pop_n ::
  "lock_free_queue \<Rightarrow> nat \<Rightarrow> ((bool \<times> bytes option \<times> u32) list \<times> lock_free_queue) option" where
  "pop_n q 0 = Some ([], q)"
| "pop_n q (Suc n) =
     (case try_dequeue_fast q of
        None \<Rightarrow> None
      | Some (b, p, s, q') \<Rightarrow>
          (case pop_n q' n of
             None \<Rightarrow> None
           | Some (rs, q'') \<Rightarrow> Some ((b, p, s) # rs, q'')))"

section \<open>Packet parser (fast\_parser.pyx)\<close>

subsection \<open>Header fields\<close>

text \<open>
  The parser overlays packed header structs on the frame and reads their multi-byte fields
  with the host's loads; the extension targets little-endian hosts (arm64 macOS, x86-64
  Linux), so \<open>load_u16\<close> and \<open>load_u32\<close> put the byte at the lower address in the
  low-order position. \<open>ntohs\<close> and \<open>ntohl\<close> are \<open>_ntohs\<close> and \<open>_ntohl\<close>.
\<close>

definition load_u16 :: "u8 list \<Rightarrow> nat \<Rightarrow> u16" where
  "load_u16 data off = ucast (data ! off) OR push_bit 8 (ucast (data ! (off + 1)))"

definition load_u32 :: "u8 list \<Rightarrow> nat \<Rightarrow> u32" where
  "load_u32 data off =
     ucast (data ! off) OR push_bit 8 (ucast (data ! (off + 1))) OR
     push_bit 16 (ucast (data ! (off + 2))) OR push_bit 24 (ucast (data ! (off + 3)))"

definition ntohs :: "u16 \<Rightarrow> u16" where
  "ntohs v = push_bit 8 (v AND 0xFF) OR (drop_bit 8 v AND 0xFF)"

definition ntohl :: "u32 \<Rightarrow> u32" where
  "ntohl v =
     push_bit 24 (v AND 0xFF) OR push_bit 16 (drop_bit 8 v AND 0xFF) OR
     push_bit 8 (drop_bit 16 v AND 0xFF) OR (drop_bit 24 v AND 0xFF)"

subsection \<open>Exchange ports\<close>

definition NYSE_PORTS :: "u16 list" where
  "NYSE_PORTS = [4001, 9001, 8001, 7001]"

definition NASDAQ_PORTS :: "u16 list" where
  "NASDAQ_PORTS = [4002, 9002, 8002, 7002]"

definition CBOE_PORTS :: "u16 list" where
  "CBOE_PORTS = [4003, 9003, 8003, 7003]"

text \<open>The loop \<open>for i in range(4): if port == PORTS[i]: return ...\<close>.\<close>

primrec port_in :: "u16 \<Rightarrow> u16 list \<Rightarrow> bool" where
  "port_in port [] = False"
| "port_in port (p # ps) = (if port = p then True else port_in port ps)"

definition is_exchange_port :: "u16 \<Rightarrow> bool" where
  "is_exchange_port port =
     (if port_in port NYSE_PORTS then True
      else if port_in port NASDAQ_PORTS then True
      else if port_in port CBOE_PORTS then True
      else False)"

definition get_exchange_id :: "u16 \<Rightarrow> int" where
  "get_exchange_id port =
     (if port_in port NYSE_PORTS then 1
      else if port_in port NASDAQ_PORTS then 2
      else if port_in port CBOE_PORTS then 3
      else 0)"

subsection \<open>The parser\<close>

text \<open>
  \<open>_is_fix_protocol(payload, payload_len)\<close>, the payload given by its offset in the
  frame.
\<close>

definition is_fix_protocol :: "u8 list \<Rightarrow> nat \<Rightarrow> int \<Rightarrow> bool" where
  "is_fix_protocol data payload payload_len =
     (if payload_len < 8 then False
      else data ! payload = 56 \<and> data ! (payload + 1) = 61 \<and> data ! (payload + 2) = 70 \<and>
           data ! (payload + 3) = 73 \<and> data ! (payload + 4) = 88)"

record fast_packet_parser =
  packets_parsed :: u64
  bytes_processed :: u64
  parse_time_ns :: u64
  parser_initialized :: bool

definition FastPacketParser_cinit :: fast_packet_parser where
  "FastPacketParser_cinit =
     \<lparr>packets_parsed = 0, bytes_processed = 0, parse_time_ns = 0, parser_initialized = True\<rparr>"

text \<open>The dictionary that \<open>parse_packet_fast\<close> returns.\<close>

record parsed_packet =
  src_port :: u16
  dest_port :: u16
  protocol :: string
  exchange_id :: int
  exchange_name :: string
  is_fix :: bool
  packet_size :: int
  src_ip :: u32
  dest_ip :: u32

text \<open>
  The local variables that the TCP and the UDP branch assign. \<open>is_trading_packet\<close> and
  \<open>is_fix\<close> start as false; the two ports are assigned in both branches; \<open>exchange_id\<close>
  is assigned only for a trading packet and is otherwise never read, which the model
  renders as 0.
\<close>

record l4_vars =
  v_src_port :: u16
  v_dest_port :: u16
  v_is_trading_packet :: bool
  v_exchange_id :: int
  v_is_fix :: bool

text \<open>
  The part the two branches share: the ports are at the start of the L4 header at offset
  \<open>l4\<close>; \<open>l4_header_len\<close> is the TCP header length from the data offset field, or 8
  for UDP.
\<close>

definition classify_l4 :: "u8 list \<Rightarrow> int \<Rightarrow> int \<Rightarrow> int \<Rightarrow> l4_vars" where
  "classify_l4 data packet_len ip_header_len l4_header_len =
     (let l4 = nat (14 + ip_header_len);
          src_port = ntohs (load_u16 data l4);
          dest_port = ntohs (load_u16 data (l4 + 2));
          is_trading_packet = (is_exchange_port src_port \<or> is_exchange_port dest_port)
      in if is_trading_packet then
           let exchange_id = get_exchange_id dest_port;
               exchange_id = (if exchange_id = 0 then get_exchange_id src_port
                              else exchange_id);
               payload_len = packet_len - 14 - ip_header_len - l4_header_len;
               is_fix = (if payload_len > 0
                         then is_fix_protocol data (nat (14 + ip_header_len + l4_header_len))
                                payload_len
                         else False)
           in \<lparr>v_src_port = src_port, v_dest_port = dest_port, v_is_trading_packet = True,
               v_exchange_id = exchange_id, v_is_fix = is_fix\<rparr>
         else \<lparr>v_src_port = src_port, v_dest_port = dest_port, v_is_trading_packet = False,
               v_exchange_id = 0, v_is_fix = False\<rparr>)"

text \<open>
  The end of \<open>parse_packet_fast\<close>, reached by every frame that no early \<open>return None\<close>
  has dropped: the counters are updated, and the dictionary is returned for a trading
  packet. \<open>vars\<close> is \<open>None\<close> when neither branch ran.
\<close>

definition finish_parse ::
  "fast_packet_parser \<Rightarrow> u8 list \<Rightarrow> int \<Rightarrow> l4_vars option \<Rightarrow>
     parsed_packet option \<times> fast_packet_parser" where
  "finish_parse self data packet_len vars =
     (let self' = self\<lparr>packets_parsed := packets_parsed self + 1,
                        bytes_processed := bytes_processed self + word_of_int packet_len\<rparr>
      in case vars of
           None \<Rightarrow> (None, self')
         | Some v \<Rightarrow>
             if \<not> v_is_trading_packet v then (None, self')
             else (Some \<lparr>src_port = v_src_port v,
                         dest_port = v_dest_port v,
                         protocol = (if data ! 23 = 6 then ''TCP'' else ''UDP''),
                         exchange_id = v_exchange_id v,
                         exchange_name =
                           [''Unknown'', ''NYSE'', ''NASDAQ'', ''CBOE''] ! nat (v_exchange_id v),
                         is_fix = v_is_fix v,
                         packet_size = packet_len,
                         src_ip = ntohl (load_u32 data 26),
                         dest_ip = ntohl (load_u32 data 30)\<rparr>, self'))"

text \<open>
  \<open>parse_packet_fast(packet_data)\<close>. \<open>packet_len\<close> is a C \<open>int\<close> that receives the
  length of the buffer. The IPv4 header starts at offset 14, so \<open>version_ihl\<close> is byte
  14 and \<open>protocol\<close> is byte 23.
\<close>

definition parse_packet_fast ::
  "fast_packet_parser \<Rightarrow> u8 list \<Rightarrow> parsed_packet option \<times> fast_packet_parser" where
  "parse_packet_fast self packet_data =
     (let packet_len = sint (word_of_nat (length packet_data) :: 32 word) in
      if packet_len < 14 then (None, self)
      else if ntohs (load_u16 packet_data 12) \<noteq> 0x0800 then (None, self)
      else if packet_len < 34 then (None, self)
      else
        let version_ihl = packet_data ! 14 in
        if drop_bit 4 version_ihl \<noteq> 4 then (None, self)
        else
          let ip_header_len = uint (version_ihl AND 0x0F) * 4 in
          if ip_header_len < 20 \<or> packet_len < 14 + ip_header_len then (None, self)
          else if packet_data ! 23 = 6 then
            (if packet_len < 14 + ip_header_len + 20 then (None, self)
             else
               let tcp_header_len =
                     uint (drop_bit 4 (packet_data ! (nat (14 + ip_header_len) + 12))
                           AND 0x0F) * 4
               in finish_parse self packet_data packet_len
                    (Some (classify_l4 packet_data packet_len ip_header_len tcp_header_len)))
          else if packet_data ! 23 = 17 then
            (if packet_len < 14 + ip_header_len + 8 then (None, self)
             else finish_parse self packet_data packet_len
                    (Some (classify_l4 packet_data packet_len ip_header_len 8)))
          else finish_parse self packet_data packet_len None)"

subsection \<open>The specification's conditions for rejecting a frame\<close>

text \<open>
  The five reasons of the specification, each as a predicate on the frame, over the
  fields of its headers read in network byte order. A byte beyond the end of the frame
  reads as 0 here, so that every predicate is defined on every frame. Ports are derived
  for TCP (protocol 6) and UDP (protocol 17) only.
\<close>

definition byte_at :: "u8 list \<Rightarrow> nat \<Rightarrow> u8" where
  "byte_at frame i = (if i < length frame then frame ! i else 0)"

definition be16 :: "u8 list \<Rightarrow> nat \<Rightarrow> u16" where
  "be16 frame i = push_bit 8 (ucast (byte_at frame i)) OR ucast (byte_at frame (i + 1))"

definition ihl_words :: "u8 list \<Rightarrow> nat" where
  "ihl_words frame = unat (byte_at frame 14 AND 0x0F)"

definition frame_too_short :: "u8 list \<Rightarrow> bool" where
  "frame_too_short frame \<longleftrightarrow>
     length frame < 14 \<or> length frame < 34 \<or> length frame < 14 + 4 * ihl_words frame"

definition not_ipv4 :: "u8 list \<Rightarrow> bool" where
  "not_ipv4 frame \<longleftrightarrow> be16 frame 12 \<noteq> 0x0800 \<or> drop_bit 4 (byte_at frame 14) \<noteq> 4"

definition ihl_below_5 :: "u8 list \<Rightarrow> bool" where
  "ihl_below_5 frame \<longleftrightarrow> ihl_words frame < 5"

definition l4_header_truncated :: "u8 list \<Rightarrow> bool" where
  "l4_header_truncated frame \<longleftrightarrow>
     (byte_at frame 23 = 6 \<and> length frame < 14 + 4 * ihl_words frame + 20) \<or>
     (byte_at frame 23 = 17 \<and> length frame < 14 + 4 * ihl_words frame + 8)"

definition derived_ports :: "u8 list \<Rightarrow> u16 list" where
  "derived_ports frame =
     (if byte_at frame 23 = 6 \<or> byte_at frame 23 = 17
      then [be16 frame (14 + 4 * ihl_words frame), be16 frame (14 + 4 * ihl_words frame + 2)]
      else [])"

definition configured_exchange_ports :: "u16 list" where
  "configured_exchange_ports = NYSE_PORTS @ NASDAQ_PORTS @ CBOE_PORTS"

definition no_port_matches :: "u8 list \<Rightarrow> bool" where
  "no_port_matches frame \<longleftrightarrow>
     list_all (\<lambda>p. p \<notin> set configured_exchange_ports) (derived_ports frame)"

definition spec_rejects :: "u8 list \<Rightarrow> bool" where
  "spec_rejects frame \<longleftrightarrow>
     frame_too_short frame \<or> not_ipv4 frame \<or> ihl_below_5 frame \<or>
     l4_header_truncated frame \<or> no_port_matches frame"

subsection \<open>Offsets of the frame walk, and the frames of the end-to-end scenarios\<close>



text \<open>
  Scenario 1: Ethernet II, IPv4 without options, TCP from 10.0.0.1:54321 to
  10.0.0.2:4001, TCP header of 20 bytes, payload \<open>8=FIX.4.2|9=5|\<close> with the separator
  byte 1.
\<close>

definition nyse_tcp_frame :: "u8 list" where
  "nyse_tcp_frame =
     [0x02, 0x00, 0x00, 0x00, 0x00, 0x02,  0x02, 0x00, 0x00, 0x00, 0x00, 0x01,  0x08, 0x00,
      0x45, 0x00, 0x00, 0x36, 0x00, 0x01, 0x40, 0x00, 0x40, 0x06, 0x00, 0x00,
      10, 0, 0, 1,  10, 0, 0, 2,
      0xD4, 0x31, 0x0F, 0xA1,  0, 0, 0, 1,  0, 0, 0, 0,  0x50, 0x18, 0xFF, 0xFF,
      0x00, 0x00, 0x00, 0x00,
      56, 61, 70, 73, 88, 46, 52, 46, 50, 1, 57, 61, 53, 1]"

text \<open>Scenario 2: the same layout over UDP, to port 53.\<close>

definition dns_udp_frame :: "u8 list" where
  "dns_udp_frame =
     [0x02, 0x00, 0x00, 0x00, 0x00, 0x02,  0x02, 0x00, 0x00, 0x00, 0x00, 0x01,  0x08, 0x00,
      0x45, 0x00, 0x00, 0x24, 0x00, 0x01, 0x40, 0x00, 0x40, 0x11, 0x00, 0x00,
      10, 0, 0, 1,  10, 0, 0, 2,
      0xD4, 0x31, 0x00, 0x35,  0x00, 0x10, 0x00, 0x00,
      1, 2, 3, 4, 5, 6, 7, 8]"

section \<open>Memory pool (memory\_pool.pyx)\<close>

subsection \<open>Data\<close>

text \<open>
  Pointers into the arena are addresses (natural numbers, 0 for \<open>NULL\<close>); a pointer to a
  block descriptor is the index of the descriptor, \<open>None\<close> for \<open>NULL\<close>. \<open>pool_memory\<close> is
  the address of the arena and \<open>pool_bytes\<close> its content. \<open>allocated_views\<close> is the
  dictionary from \<open>id(memview)\<close> to the address of the block.

  \<open>all_blocks\<close> are the \<open>num_blocks\<close> descriptors of the array. The source never checks
  an index against the length of the array, and C gives an access outside it no
  meaning; what the compiled code does is to read and write the memory behind the array.
  \<open>beyond_blocks\<close> is that memory, read as the descriptors it would hold at the indices
  from \<open>num_blocks\<close> on: its content is whatever the heap holds there.
\<close>

record memory_block =
  blk_data :: nat
  blk_size :: u32
  blk_offset :: u32
  blk_in_use :: bool
  blk_next :: "nat option"

record memory_pool =
  pool_memory :: nat
  pool_bytes :: "u8 list"
  free_blocks :: "nat option"
  all_blocks :: "memory_block list"
  beyond_blocks :: "nat \<Rightarrow> memory_block"
  pool_size :: u32
  block_size :: u32
  num_blocks :: u32
  blocks_allocated :: u32
  blocks_free :: u32
  total_allocations :: u64
  total_deallocations :: u64
  use_mmap :: bool
  pool_initialized :: bool
  mmap_fd :: int
  allocated_views :: "nat \<rightharpoonup> nat"

text \<open>The descriptor that a descriptor pointer designates, and the store through it.\<close>

definition block_at :: "memory_pool \<Rightarrow> nat \<Rightarrow> memory_block" where
  "block_at p i = (if i < length (all_blocks p) then all_blocks p ! i else beyond_blocks p i)"

definition set_block :: "memory_pool \<Rightarrow> nat \<Rightarrow> memory_block \<Rightarrow> memory_pool" where
  "set_block p i b =
     (if i < length (all_blocks p) then p\<lparr>all_blocks := (all_blocks p)[i := b]\<rparr>
      else p\<lparr>beyond_blocks := (beyond_blocks p)(i := b)\<rparr>)"

subsection \<open>Construction\<close>

text \<open>
  \<open>_initialize_blocks\<close>: block \<open>i\<close> starts at offset \<open>i * block_size\<close> (accumulated in
  a \<open>uint32_t\<close>) and is linked to block \<open>i + 1\<close>, the last one to \<open>NULL\<close>.
\<close>

definition initialize_blocks :: "nat \<Rightarrow> u32 \<Rightarrow> u32 \<Rightarrow> memory_block list" where
  "initialize_blocks base n bsize =
     map (\<lambda>i. \<lparr>blk_data = base + unat (word_of_nat i * bsize),
               blk_size = bsize,
               blk_offset = word_of_nat i * bsize,
               blk_in_use = False,
               blk_next = (if word_of_nat i < n - 1 then Some (i + 1) else None)\<rparr>)
         [0..<unat n]"

text \<open>
  \<open>__cinit__(pool_size, block_size, use_mmap)\<close>. \<open>arena\<close> is the address that
  \<open>malloc(pool_size)\<close> returns (0 for \<open>NULL\<close>), \<open>blocks_ok\<close> says whether \<open>malloc\<close>
  returns the descriptor array, and \<open>heap\<close> is the memory behind that array. The arena is
  zeroed, and \<open>free_blocks\<close> points to \<open>all_blocks[0]\<close>, also when there is no block. The
  quotient \<open>pool_size // block_size\<close> is a C division, with no defined behaviour for the
  divisor 0.
\<close>

definition HighPerformanceMemoryPool_cinit ::
  "nat \<Rightarrow> bool \<Rightarrow> (nat \<Rightarrow> memory_block) \<Rightarrow> u32 \<Rightarrow> u32 \<Rightarrow> bool \<Rightarrow> failure + memory_pool" where
  "HighPerformanceMemoryPool_cinit arena blocks_ok heap pool_size0 block_size0 use_mmap0 =
     (if block_size0 = 0 then Inl DivisionByZero
      else if arena = 0 then Inl MemoryError
      else if \<not> blocks_ok then Inl MemoryError
      else
        let n = pool_size0 div block_size0 in
        Inr \<lparr>pool_memory = arena,
             pool_bytes = replicate (unat pool_size0) 0,
             free_blocks = Some 0,
             all_blocks = initialize_blocks arena n block_size0,
             beyond_blocks = heap,
             pool_size = pool_size0,
             block_size = block_size0,
             num_blocks = n,
             blocks_allocated = 0,
             blocks_free = n,
             total_allocations = 0,
             total_deallocations = 0,
             use_mmap = use_mmap0,
             pool_initialized = True,
             mmap_fd = - 1,
             allocated_views = Map.empty\<rparr>)"

subsection \<open>Allocation and release\<close>

text \<open>
  \<open>_allocate_block_fast\<close> returns the \<open>data\<close> pointer of the descriptor at the head of
  the free list, or \<open>NULL\<close> when the list is empty. The head is followed without a check:
  in a pool of no block it points behind the (empty) array.
\<close>

definition allocate_block_fast :: "memory_pool \<Rightarrow> nat \<times> memory_pool" where
  "allocate_block_fast p =
     (case free_blocks p of
        None \<Rightarrow> (0, p)
      | Some i \<Rightarrow>
          let block = block_at p i;
              p1 = set_block (p\<lparr>free_blocks := blk_next block\<rparr>) i
                     (block\<lparr>blk_in_use := True, blk_next := None\<rparr>)
          in (blk_data block,
              p1\<lparr>blocks_allocated := blocks_allocated p + 1,
                 blocks_free := blocks_free p - 1,
                 total_allocations := total_allocations p + 1\<rparr>))"

text \<open>\<open>memset(dst, 0, n)\<close> on the arena, \<open>dst\<close> given by its offset in the arena.\<close>

definition memset_zero :: "u8 list \<Rightarrow> nat \<Rightarrow> nat \<Rightarrow> u8 list" where
  "memset_zero mem off n =
     map (\<lambda>i. if off \<le> i \<and> i < off + n then 0 else mem ! i) [0..<length mem]"

text \<open>
  The search loop of \<open>_deallocate_block_fast\<close>: the first descriptor among
  \<open>all_blocks[0..num_blocks)\<close> whose offset is \<open>offset\<close>.
\<close>

definition find_block :: "memory_pool \<Rightarrow> u32 \<Rightarrow> nat option" where
  "find_block p offset =
     List.find (\<lambda>i. blk_offset (block_at p i) = offset) [0..<unat (num_blocks p)]"

definition deallocate_block_fast :: "memory_pool \<Rightarrow> nat \<Rightarrow> memory_pool" where
  "deallocate_block_fast p ptr =
     (let offset = (word_of_int (int ptr - int (pool_memory p)) :: u32) in
      case find_block p offset of
        None \<Rightarrow> p
      | Some i \<Rightarrow>
          let block = block_at p i in
          if \<not> blk_in_use block then p
          else
            let p1 = set_block
                       (p\<lparr>pool_bytes := memset_zero (pool_bytes p)
                                          (blk_data block - pool_memory p)
                                          (unat (blk_size block))\<rparr>)
                       i (block\<lparr>blk_in_use := False, blk_next := free_blocks p\<rparr>)
            in p1\<lparr>free_blocks := Some i,
                  blocks_allocated := blocks_allocated p - 1,
                  blocks_free := blocks_free p + 1,
                  total_deallocations := total_deallocations p + 1\<rparr>)"

text \<open>
  A memory view, or any other object handed to \<open>deallocate\<close>, is the pair of its
  identity (the value of \<open>id\<close>, which the interpreter chooses and may give to another
  object once this one is gone) and the address of its first byte.
\<close>

type_synonym memview = "nat \<times> nat"

text \<open>
  \<open>allocate(size)\<close> ignores \<open>size\<close>; \<open>view_id\<close> is the identity of the view it creates.
\<close>

definition allocate :: "memory_pool \<Rightarrow> nat \<Rightarrow> memview option \<times> memory_pool" where
  "allocate p view_id =
     (case allocate_block_fast p of
        (ptr, p') \<Rightarrow>
          if ptr = 0 then (None, p')
          else (Some (view_id, ptr),
                p'\<lparr>allocated_views := (allocated_views p')(view_id \<mapsto> ptr)\<rparr>))"

text \<open>
  \<open>deallocate(memview)\<close>: the argument is \<open>None\<close> or an object, of which only the
  identity is used.
\<close>

definition deallocate :: "memory_pool \<Rightarrow> memview option \<Rightarrow> memory_pool" where
  "deallocate p memview =
     (case memview of
        None \<Rightarrow> p
      | Some view \<Rightarrow>
          let view_id = fst view in
          (case allocated_views p view_id of
             None \<Rightarrow> p
           | Some ptr_addr \<Rightarrow>
               deallocate_block_fast
                 (p\<lparr>allocated_views := (allocated_views p)(view_id := None)\<rparr>) ptr_addr))"

subsection \<open>Sequences of pool operations\<close>

datatype pool_op = Allocate nat | Deallocate "memview option"

fun run_pool :: "memory_pool \<Rightarrow> pool_op list \<Rightarrow> memory_pool" where
  "run_pool p [] = p"
| "run_pool p (Allocate view_id # ops) = run_pool (snd (allocate p view_id)) ops"
| "run_pool p (Deallocate memview # ops) = run_pool (deallocate p memview) ops"

text \<open>The views that the \<open>allocate\<close> calls of a sequence return, in call order.\<close>

fun issued :: "memory_pool \<Rightarrow> pool_op list \<Rightarrow> memview list" where
  "issued p [] = []"
| "issued p (Allocate view_id # ops) =
     (case allocate p view_id of
        (None, p') \<Rightarrow> issued p' ops
      | (Some view, p') \<Rightarrow> view # issued p' ops)"
| "issued p (Deallocate memview # ops) = issued (deallocate p memview) ops"

text \<open>
  The guard of a release: the identity of the object is a key of the dictionary, the
  address kept for it is the start of a block, and that block is in use.
\<close>

definition release_accepted :: "memory_pool \<Rightarrow> memview option \<Rightarrow> bool" where
  "release_accepted p memview =
     (case memview of
        None \<Rightarrow> False
      | Some view \<Rightarrow>
          (case allocated_views p (fst view) of
             None \<Rightarrow> False
           | Some ptr \<Rightarrow>
               (case find_block p (word_of_int (int ptr - int (pool_memory p))) of
                  None \<Rightarrow> False
                | Some i \<Rightarrow> blk_in_use (block_at p i))))"

text \<open>
  For the proofs: \<open>free_chain bs h fl\<close> says that the free list starting at \<open>h\<close> runs
  through the descriptors \<open>fl\<close>, in this order, all of them inside the array and not in
  use, and ends with \<open>NULL\<close>. \<open>pool_inv p fl\<close> adds that no descriptor is twice on the
  list, that every descriptor not in use is on it, that no \<open>data\<close> pointer is \<open>NULL\<close>, and
  that the counters are the numbers of descriptors on and off the list.
\<close>

fun free_chain :: "memory_block list \<Rightarrow> nat option \<Rightarrow> nat list \<Rightarrow> bool" where
  "free_chain bs h [] \<longleftrightarrow> h = None"
| "free_chain bs h (i # fl) \<longleftrightarrow>
     h = Some i \<and> i < length bs \<and> \<not> blk_in_use (bs ! i) \<and> free_chain bs (blk_next (bs ! i)) fl"

definition pool_inv :: "memory_pool \<Rightarrow> nat list \<Rightarrow> bool" where
  "pool_inv p fl \<longleftrightarrow>
     length (all_blocks p) = unat (num_blocks p) \<and>
     free_chain (all_blocks p) (free_blocks p) fl \<and>
     distinct fl \<and>
     list_all (\<lambda>i. blk_in_use (all_blocks p ! i) \<or> i \<in> set fl) [0..<length (all_blocks p)] \<and>
     list_all (\<lambda>b. blk_data b \<noteq> 0) (all_blocks p) \<and>
     unat (blocks_free p) = length fl \<and>
     unat (blocks_allocated p) + length fl = unat (num_blocks p)"

section \<open>Latency tracker (latency\_tracker.pyx)\<close>

subsection \<open>Numbers\<close>

text \<open>
  A \<open>double\<close> is the real number it stands for; infinities and NaN, which can enter only
  as arguments, are not modelled. An operation on doubles gives the double nearest to the
  exact result, the one with the even significand when two are equally near:
  \<open>round_double\<close>, for the binary64 format with its 53-bit significand and its
  subnormal numbers below \<open>2\<^sup>-\<^sup>1\<^sup>0\<^sup>2\<^sup>2\<close>. A result beyond the largest double, which the
  program turns into an infinity, stays finite here; wherever the tracker can produce one,
  it is converted to an integer next, which has no defined behaviour either way.
\<close>

definition double_exponent :: "real \<Rightarrow> int" where
  "double_exponent x = max \<lfloor>log 2 \<bar>x\<bar>\<rfloor> (- 1022)"

definition double_ulp :: "real \<Rightarrow> real" where
  "double_ulp x = 2 powr real_of_int (double_exponent x - 52)"

definition round_half_even :: "real \<Rightarrow> int" where
  "round_half_even y =
     (let f = \<lfloor>y\<rfloor>; d = y - real_of_int f
      in if d < 1 / 2 then f
         else if 1 / 2 < d then f + 1
         else if even f then f else f + 1)"

definition round_double :: "real \<Rightarrow> real" where
  "round_double x =
     (if x = 0 then 0 else real_of_int (round_half_even (x / double_ulp x)) * double_ulp x)"

text \<open>
  A C \<open>int\<close> is an integer between \<open>- 2\<^sup>3\<^sup>1\<close> and \<open>2\<^sup>3\<^sup>1 - 1\<close>. \<open>c_trunc\<close> is the conversion of a \<open>double\<close> to an integer type, which drops the
  fraction; C defines it when the result fits the target type. \<open>c_mod\<close> is the operator
  \<open>%\<close> of C on \<open>int\<close> (the module is compiled with \<open>cdivision=True\<close>), for a divisor
  other than 0.
\<close>

definition c_trunc :: "real \<Rightarrow> int" where
  "c_trunc x = (if 0 \<le> x then \<lfloor>x\<rfloor> else \<lceil>x\<rceil>)"

definition double_to_uint32 :: "real \<Rightarrow> failure + u32" where
  "double_to_uint32 x =
     (if - 1 < x \<and> x < 2 ^ 32 then Inr (word_of_int (c_trunc x)) else Inl ConversionOutOfRange)"

definition double_to_int :: "real \<Rightarrow> failure + int" where
  "double_to_int x =
     (if - (2 ^ 31) - 1 < x \<and> x < 2 ^ 31 then Inr (c_trunc x) else Inl ConversionOutOfRange)"

definition c_mod :: "int \<Rightarrow> int \<Rightarrow> int" where
  "c_mod a b = sgn a * (\<bar>a\<bar> mod \<bar>b\<bar>)"

subsection \<open>Data\<close>

definition MAX_LATENCY_SAMPLES :: int where
  "MAX_LATENCY_SAMPLES = 100000"

record latency_sample =
  timestamp_ns :: u64
  latency_ns :: u32
  sample_exchange_id :: u16
  protocol_type :: u8
  padding :: u8

record latency_tracker =
  samples :: "latency_sample list"
  sample_count :: int
  max_samples :: int
  total_samples :: u64
  start_time_ns :: u64
  min_latency_us :: real
  max_latency_us :: real
  sum_latency_us :: real
  sum_squared_latency_us :: real
  violation_count :: u64
  target_latency_us :: real
  tracker_initialized :: bool

subsection \<open>Construction\<close>

text \<open>
  \<open>__cinit__(max_samples, target_latency_us)\<close>. \<open>malloc_ok\<close> says whether \<open>malloc\<close>
  returns the array; the request for a negative \<open>max_samples\<close>, which is converted to a
  \<open>size_t\<close> of more than \<open>2\<^sup>6\<^sup>3\<close> bytes, is not served. \<open>now\<close> is the value of
  \<open>time.time_ns()\<close>.
\<close>

definition UltraLowLatencyTracker_cinit ::
  "bool \<Rightarrow> int \<Rightarrow> real \<Rightarrow> u64 \<Rightarrow> failure + latency_tracker" where
  "UltraLowLatencyTracker_cinit malloc_ok max_samples0 target0 now =
     (if \<not> malloc_ok \<or> max_samples0 < 0 then Inl MemoryError
      else
        Inr \<lparr>samples = replicate (nat max_samples0)
                         \<lparr>timestamp_ns = 0, latency_ns = 0, sample_exchange_id = 0,
                          protocol_type = 0, padding = 0\<rparr>,
             sample_count = 0,
             max_samples = max_samples0,
             total_samples = 0,
             start_time_ns = now,
             min_latency_us = 999999,
             max_latency_us = 0,
             sum_latency_us = 0,
             sum_squared_latency_us = 0,
             violation_count = 0,
             target_latency_us = target0,
             tracker_initialized = True\<rparr>)"

subsection \<open>Recording\<close>

text \<open>
  \<open>_add_sample_fast\<close>. The failures are the points where C leaves the behaviour
  undefined: \<open>%\<close> by a \<open>max_samples\<close> of 0, a store outside the array, and the
  increment of \<open>sample_count\<close> beyond the largest \<open>int\<close>.
\<close>

definition add_sample_fast ::
  "latency_tracker \<Rightarrow> u32 \<Rightarrow> u16 \<Rightarrow> u8 \<Rightarrow> u64 \<Rightarrow> failure + latency_tracker" where
  "add_sample_fast t lat_ns exch proto now =
     (if max_samples t = 0 then Inl DivisionByZero
      else
        let index = c_mod (sample_count t) (max_samples t);
            latency_us = round_double (real (unat lat_ns) / 1000)
        in
          if index < 0 \<or> int (length (samples t)) \<le> index then Inl OutOfBounds
          else if sample_count t = 2 ^ 31 - 1 then Inl SignedOverflow
          else
            Inr (t\<lparr>samples := (samples t)[nat index :=
                      (samples t ! nat index)\<lparr>timestamp_ns := now, latency_ns := lat_ns,
                        sample_exchange_id := exch, protocol_type := proto\<rparr>],
                   min_latency_us :=
                     (if latency_us < min_latency_us t then latency_us else min_latency_us t),
                   max_latency_us :=
                     (if latency_us > max_latency_us t then latency_us else max_latency_us t),
                   sum_latency_us := round_double (sum_latency_us t + latency_us),
                   sum_squared_latency_us :=
                     round_double (sum_squared_latency_us t
                                   + round_double (latency_us * latency_us)),
                   violation_count :=
                     (if latency_us > target_latency_us t then violation_count t + 1
                      else violation_count t),
                   sample_count := sample_count t + 1,
                   total_samples := total_samples t + 1\<rparr>))"

definition protocol_number :: "string \<Rightarrow> u8" where
  "protocol_number protocol0 =
     (if protocol0 = ''TCP'' then 1
      else if protocol0 = ''UDP'' then 2
      else if protocol0 = ''FIX'' then 3
      else 0)"

text \<open>\<open>record_latency(latency_us, exchange_id, protocol)\<close>; \<open>now\<close> is the clock reading.\<close>

definition record_latency ::
  "latency_tracker \<Rightarrow> real \<Rightarrow> int \<Rightarrow> string \<Rightarrow> u64 \<Rightarrow> failure + latency_tracker" where
  "record_latency t latency_us exchange_id0 protocol0 now =
     (case double_to_uint32 (round_double (latency_us * 1000)) of
        Inl e \<Rightarrow> Inl e
      | Inr lat_ns \<Rightarrow>
          add_sample_fast t lat_ns (word_of_int exchange_id0) (protocol_number protocol0) now)"

text \<open>\<open>record_packet_latency(send_time_ns, recv_time_ns, exchange_id, protocol)\<close>.\<close>

definition record_packet_latency ::
  "latency_tracker \<Rightarrow> u64 \<Rightarrow> u64 \<Rightarrow> int \<Rightarrow> string \<Rightarrow> u64 \<Rightarrow> failure + latency_tracker" where
  "record_packet_latency t send_time_ns recv_time_ns exchange_id0 protocol0 now =
     (if recv_time_ns \<le> send_time_ns then Inr t
      else
        let latency_ns_raw = recv_time_ns - send_time_ns;
            lat_ns = (ucast (min latency_ns_raw 4294967295) :: u32);
            latency_us = round_double (real (unat lat_ns) / 1000)
        in record_latency t latency_us exchange_id0 protocol0 now)"

subsection \<open>Statistics\<close>

text \<open>
  \<open>get_percentile\<close>: the latencies of the first \<open>min(sample_count, max_samples)\<close> samples
  are sorted, and the entry at \<open>(percentile / 100) * (actual_count - 1)\<close>, without its
  fraction, is returned. \<open>np.empty\<close> raises \<open>ValueError\<close> for a negative size; reading
  outside \<open>latencies\<close> is not checked (\<open>boundscheck=False\<close>).
\<close>

definition get_percentile :: "latency_tracker \<Rightarrow> real \<Rightarrow> failure + real" where
  "get_percentile t percentile =
     (if sample_count t = 0 then Inr 0
      else
        let actual_count = min (sample_count t) (max_samples t) in
        if actual_count < 0 then Inl ValueError
        else if int (length (samples t)) < actual_count then Inl OutOfBounds
        else
          let latencies = sort (map (\<lambda>s. round_double (real (unat (latency_ns s)) / 1000))
                                  (take (nat actual_count) (samples t)))
          in
            case double_to_int (round_double (round_double (percentile / 100)
                                              * real_of_int (actual_count - 1))) of
              Inl e \<Rightarrow> Inl e
            | Inr index \<Rightarrow>
                if index < 0 \<or> int (length latencies) \<le> index then Inl OutOfBounds
                else Inr (latencies ! nat index))"

record tracker_statistics =
  ts_count :: nat
  ts_min_us :: real
  ts_max_us :: real
  ts_mean_us :: real
  ts_std_us :: real
  ts_p50_us :: real
  ts_p95_us :: real
  ts_p99_us :: real
  ts_p99_9_us :: real
  ts_violation_rate :: real
  ts_target_us :: real

text \<open>
  \<open>get_statistics\<close> of the tracker. \<open>c_pow\<close> is the function \<open>pow\<close> of the C library,
  which computes \<open>variance ** 0.5\<close> and whose rounding the C standard leaves open. The
  divisor \<open>total_samples\<close> is 0 only together with \<open>sample_count\<close> in every state that
  the methods of the tracker produce; the quotients by 0, which the program evaluates to
  an infinity or NaN, have no counterpart here. The literal \<open>99.9\<close> is the double nearest
  to it.
\<close>

definition tracker_get_statistics ::
  "(real \<Rightarrow> real \<Rightarrow> real) \<Rightarrow> latency_tracker \<Rightarrow> failure + tracker_statistics" where
  "tracker_get_statistics c_pow t =
     (if sample_count t = 0 then
        Inr \<lparr>ts_count = 0, ts_min_us = 0, ts_max_us = 0, ts_mean_us = 0, ts_std_us = 0,
             ts_p50_us = 0, ts_p95_us = 0, ts_p99_us = 0, ts_p99_9_us = 0,
             ts_violation_rate = 0, ts_target_us = target_latency_us t\<rparr>
      else
        let n = round_double (real (unat (total_samples t)));
            mean_us = round_double (sum_latency_us t / n);
            variance = round_double (round_double (sum_squared_latency_us t / n)
                                     - round_double (mean_us * mean_us));
            std_us = (if variance > 0 then c_pow variance (1 / 2) else 0);
            violation_rate =
              round_double (round_double (round_double (real (unat (violation_count t))) / n)
                            * 100)
        in
          case get_percentile t 50 of Inl e \<Rightarrow> Inl e | Inr p50 \<Rightarrow>
          case get_percentile t 95 of Inl e \<Rightarrow> Inl e | Inr p95 \<Rightarrow>
          case get_percentile t 99 of Inl e \<Rightarrow> Inl e | Inr p99 \<Rightarrow>
          case get_percentile t (round_double (999 / 10)) of Inl e \<Rightarrow> Inl e | Inr p99_9 \<Rightarrow>
            Inr \<lparr>ts_count = unat (total_samples t),
                 ts_min_us = min_latency_us t,
                 ts_max_us = max_latency_us t,
                 ts_mean_us = mean_us,
                 ts_std_us = std_us,
                 ts_p50_us = p50,
                 ts_p95_us = p95,
                 ts_p99_us = p99,
                 ts_p99_9_us = p99_9,
                 ts_violation_rate = violation_rate,
                 ts_target_us = target_latency_us t\<rparr>)"

subsection \<open>Sequences of recordings\<close>

text \<open>
  A call of \<open>record_latency\<close> is given by its three arguments and the clock reading at
  the call.
\<close>

type_synonym latency_call = "real \<times> int \<times> string \<times> u64"

fun record_latencies :: "latency_tracker \<Rightarrow> latency_call list \<Rightarrow> failure + latency_tracker" where
  "record_latencies t [] = Inr t"
| "record_latencies t ((latency_us, exchange_id0, protocol0, now) # calls) =
     (case record_latency t latency_us exchange_id0 protocol0 now of
        Inl e \<Rightarrow> Inl e
      | Inr t' \<Rightarrow> record_latencies t' calls)"

text \<open>
  The value that the statistics see for a recorded \<open>latency_us\<close>: the double product
  \<open>latency_us * 1000.0\<close> without its fraction is the stored \<open>latency_ns\<close>, and the
  double quotient \<open>latency_ns / 1000.0\<close> is what enters the minimum, the maximum and the
  sum. \<open>double_sum\<close> is the sum as \<open>sum_latency_us\<close> accumulates it, rounded at every
  addition.
\<close>

definition stored_ns :: "real \<Rightarrow> int" where
  "stored_ns latency_us = c_trunc (round_double (latency_us * 1000))"

definition stored_us :: "real \<Rightarrow> real" where
  "stored_us latency_us = round_double (real_of_int (stored_ns latency_us) / 1000)"

definition double_sum :: "real list \<Rightarrow> real" where
  "double_sum qs = foldl (\<lambda>s q. round_double (s + q)) 0 qs"

definition tracker_wf :: "latency_tracker \<Rightarrow> bool" where
  "tracker_wf t \<longleftrightarrow>
     0 < max_samples t \<and> length (samples t) = nat (max_samples t) \<and> 0 \<le> sample_count t"

section \<open>Proofs\<close>

subsection \<open>Lock-free queue: the loops in closed form\<close>

lemma cas_self: "compare_and_swap v v n = (True, (v AND NOT (mask 32)) OR ucast (ucast n :: u32))"
  by (simp add: compare_and_swap_def)

lemma enq_no_spin:
  assumes "try_enqueue_fast q d s = Some r"
  shows "node_sequence (q_nodes q ! enq_slot q) \<le> q_tail_seq q"
proof (rule try_enqueue_fast.raw_induct
    [where P = "\<lambda>q d s r. node_sequence (q_nodes q ! enq_slot q) \<le> q_tail_seq q", OF _ assms])
  fix f q d s r
  assume "\<And>q d s r. f q d s = Some r \<Longrightarrow> node_sequence (q_nodes q ! enq_slot q) \<le> q_tail_seq q"
    and "(let current_tail = q_tail_seq q; next_tail = current_tail + 1;
          index = unat (ucast (current_tail AND ucast (q_mask q)) :: u32);
          node = q_nodes q ! index
      in if node_sequence node \<noteq> current_tail
         then if node_sequence node < current_tail then Some (False, q)
              else f q d s
         else let cas = compare_and_swap (q_tail_seq q) current_tail next_tail;
                  q1 = q\<lparr>q_tail_seq := snd cas\<rparr>
              in if fst cas
                 then Some (True, q1\<lparr>q_nodes := (q_nodes q1)[index :=
                          node\<lparr>node_data := Some d, node_data_size := s,
                               node_sequence := next_tail\<rparr>]\<rparr>)
                 else f q1 d s) = Some r"
  then show "node_sequence (q_nodes q ! enq_slot q) \<le> q_tail_seq q"
    by (auto simp: Let_def cas_self enq_slot_def split: if_splits)
qed

lemma try_enqueue_fast_closed:
  "try_enqueue_fast q d s =
     (let node = q_nodes q ! enq_slot q in
      if node_sequence node < q_tail_seq q then Some (False, q)
      else if q_tail_seq q < node_sequence node then None
      else Some (True, q\<lparr>q_tail_seq := (q_tail_seq q AND NOT (mask 32)) OR ucast (ucast (q_tail_seq q + 1) :: u32),
                         q_nodes := (q_nodes q)[enq_slot q :=
                            node\<lparr>node_data := Some d, node_data_size := s,
                                 node_sequence := q_tail_seq q + 1\<rparr>]\<rparr>))"
proof (cases "q_tail_seq q < node_sequence (q_nodes q ! enq_slot q)")
  case True
  have "try_enqueue_fast q d s = None"
  proof (cases "try_enqueue_fast q d s")
    case (Some r)
    from enq_no_spin[OF this] True show ?thesis by simp
  qed simp
  with True show ?thesis by (auto simp: Let_def)
next
  case False
  then show ?thesis
    by (subst try_enqueue_fast.simps) (auto simp: Let_def cas_self enq_slot_def)
qed

lemma deq_no_spin:
  assumes "try_dequeue_fast q = Some r"
  shows "node_sequence (q_nodes q ! deq_slot q) \<le> q_head_seq q + 1"
proof (rule try_dequeue_fast.raw_induct
    [where P = "\<lambda>q r. node_sequence (q_nodes q ! deq_slot q) \<le> q_head_seq q + 1", OF _ assms])
  fix f q r
  assume "\<And>q r. f q = Some r \<Longrightarrow> node_sequence (q_nodes q ! deq_slot q) \<le> q_head_seq q + 1"
    and "(let current_head = q_head_seq q; next_head = current_head + 1;
          index = unat (ucast (current_head AND ucast (q_mask q)) :: u32);
          node = q_nodes q ! index
      in if node_sequence node \<noteq> next_head
         then if node_sequence node < next_head
              then Some (False, None, 0, q) else f q
         else let cas = compare_and_swap (q_head_seq q) current_head next_head;
                  q1 = q\<lparr>q_head_seq := snd cas\<rparr>
              in if fst cas
                 then Some (True, node_data node, node_data_size node,
                        q1\<lparr>q_nodes := (q_nodes q1)[index :=
                                node\<lparr>node_data := None, node_data_size := 0,
                                   node_sequence := next_head + ucast (q_mask q1)\<rparr>]\<rparr>)
                 else f q1) = Some r"
  then show "node_sequence (q_nodes q ! deq_slot q) \<le> q_head_seq q + 1"
    by (auto simp: Let_def cas_self deq_slot_def split: if_splits)
qed

lemma try_dequeue_fast_closed:
  "try_dequeue_fast q =
     (let node = q_nodes q ! deq_slot q in
      if node_sequence node < q_head_seq q + 1 then Some (False, None, 0, q)
      else if q_head_seq q + 1 < node_sequence node then None
      else Some (True, node_data node, node_data_size node,
                 q\<lparr>q_head_seq := (q_head_seq q AND NOT (mask 32)) OR ucast (ucast (q_head_seq q + 1) :: u32),
                   q_nodes := (q_nodes q)[deq_slot q :=
                            node\<lparr>node_data := None, node_data_size := 0,
                                 node_sequence := q_head_seq q + 1 + ucast (q_mask q)\<rparr>]\<rparr>))"
proof (cases "q_head_seq q + 1 < node_sequence (q_nodes q ! deq_slot q)")
  case True
  have "try_dequeue_fast q = None"
  proof (cases "try_dequeue_fast q")
    case (Some r)
    from deq_no_spin[OF this] True show ?thesis by simp
  qed simp
  with True show ?thesis by (auto simp: Let_def)
next
  case False
  then show ?thesis
    by (subst try_dequeue_fast.simps) (auto simp: Let_def cas_self deq_slot_def)
qed

subsection \<open>Lock-free queue: construction\<close>

lemma nat_and_pred_zero:
  fixes n :: nat
  assumes "0 < n" "n AND (n - 1) = 0"
  shows "\<exists>k. n = 2 ^ k"
  using assms
proof (induction n rule: less_induct)
  case (less n)
  show ?case
  proof (cases "even n")
    case True
    then obtain m where m: "n = 2 * m" by (auto elim: evenE)
    with less.prems have m0: "0 < m" by simp
    have "(n - 1) div 2 = m - 1" using m m0 by (cases m) auto
    then have "n AND (n - 1) = 2 * (m AND (m - 1))"
      using m by (subst and_nat_rec) simp
    with less.prems have "m AND (m - 1) = 0" by simp
    with less.IH[of m] m m0 obtain k where "m = 2 ^ k" by auto
    with m have "n = 2 ^ Suc k" by simp
    then show ?thesis by blast
  next
    case False
    then obtain m where m: "n = 2 * m + 1" by (auto elim: oddE)
    have "n AND (n - 1) = 2 * (m AND m)"
      using m by (subst and_nat_rec) simp
    with less.prems have "m = 0" by simp
    with m have "n = 2 ^ 0" by simp
    then show ?thesis by blast
  qed
qed

lemma word_pow2_check:
  fixes c :: u32
  shows "(c \<noteq> 0 \<and> c AND (c - 1) = 0) \<longleftrightarrow> (\<exists>k<32. c = 2 ^ k)"
proof
  assume a: "c \<noteq> 0 \<and> c AND (c - 1) = 0"
  have "unat (c AND (c - 1)) = unat c AND unat (c - 1)"
    by (rule unsigned_and_eq)
  also have "unat (c - 1) = unat c - 1"
    using a by (simp add: unat_minus_one)
  finally have "unat c AND (unat c - 1) = 0"
    using a by simp
  moreover have "0 < unat c" using a by (simp add: unat_gt_0)
  ultimately obtain k where k: "unat c = 2 ^ k"
    using nat_and_pred_zero by blast
  have "unat c < 2 ^ 32" using unsigned_less[of c] by simp
  with k have "(2::nat) ^ k < 2 ^ 32" by simp
  then have "k < 32" by (simp only: power_strict_increasing_iff rel_simps)
  moreover have "c = 2 ^ k"
  proof -
    have "(word_of_nat (unat c) :: u32) = word_of_nat (2 ^ k)" using k by simp
    then show ?thesis by simp
  qed
  ultimately show "\<exists>k<32. c = 2 ^ k" by blast
next
  assume "\<exists>k<32. c = 2 ^ k"
  then obtain k where k: "k < 32" "c = 2 ^ k" by blast
  have "c \<noteq> 0" using k by simp
  moreover have "c AND (c - 1) = 0"
  proof -
    have "c AND (c - 1) = take_bit k c"
      by (simp add: k(2) take_bit_eq_mask mask_eq_exp_minus_1)
    also have "\<dots> = 0"
      unfolding k(2) by (simp add: take_bit_eq_0_iff)
    finally show ?thesis .
  qed
  ultimately show "c \<noteq> 0 \<and> c AND (c - 1) = 0" by blast
qed

lemma is_power_of_two_iff: "is_power_of_two c \<longleftrightarrow> (\<exists>k<32. c = 2 ^ k)"
  by (auto simp: is_power_of_two_def)

lemma not_pow2_0: "\<not> is_power_of_two 0"
  by (simp add: is_power_of_two_iff)

lemma not_pow2_6: "\<not> is_power_of_two 6"
proof -
  have "(6::u32) \<noteq> 0 \<and> (6::u32) AND (6 - 1) = 0 \<longleftrightarrow> is_power_of_two 6"
    unfolding is_power_of_two_iff by (rule word_pow2_check)
  then show ?thesis by simp
qed

text \<open>
  Claim C1 as stated (a capacity that is not a power of two, 0 included, is rejected by the
  constructor) fails: for the requested capacities 0 and 6 the constructor returns a queue,
  and its capacity is 65536.
\<close>

theorem cinit_rejects_counterexample:
  "\<not> is_power_of_two 0 \<and> map_sum id q_capacity (LockFreeQueue_cinit True 0) = Inr 65536
   \<and> \<not> is_power_of_two 6 \<and> map_sum id q_capacity (LockFreeQueue_cinit True 6) = Inr 65536"
  by (simp add: not_pow2_0 not_pow2_6 LockFreeQueue_cinit_def DEFAULT_QUEUE_SIZE_def)

text \<open>
  Claim C1, amended: the constructor never rejects a capacity. It returns a queue whose
  capacity is the requested one if that is a power of two and \<open>DEFAULT_QUEUE_SIZE\<close>
  (65536) otherwise, with \<open>mask = capacity - 1\<close> and \<open>capacity\<close> nodes; the only
  failure of the constructor is the allocation of the node array.
\<close>

theorem cinit_capacity:
  "\<exists>q. LockFreeQueue_cinit True c = Inr q \<and>
       q_capacity q = (if is_power_of_two c then c else DEFAULT_QUEUE_SIZE) \<and>
       q_mask q = q_capacity q - 1 \<and>
       length (q_nodes q) = unat (q_capacity q)"
  using word_pow2_check[of c]
  by (auto simp: LockFreeQueue_cinit_def is_power_of_two_iff initialize_nodes_def Let_def)

theorem cinit_capacity_witness:
  "\<exists>q. LockFreeQueue_cinit True 6 = Inr q \<and> q_capacity q = 65536 \<and> q_mask q = 65535
       \<and> length (q_nodes q) = 65536"
  using cinit_capacity[of 6] by (auto simp: not_pow2_6 DEFAULT_QUEUE_SIZE_def)

subsection \<open>Lock-free queue: the dequeue counters\<close>

lemma try_enqueue_fast_frame:
  assumes "try_enqueue_fast q d s = Some (b, q')"
  shows "q_total_dequeued q' = q_total_dequeued q"
    and "q_total_failed_dequeues q' = q_total_failed_dequeues q"
    and "q_total_enqueued q' = q_total_enqueued q"
    and "q_total_failed_enqueues q' = q_total_failed_enqueues q"
    and "q_capacity q' = q_capacity q"
    and "q_mask q' = q_mask q"
    and "q_initialized q' = q_initialized q"
    and "q_head_seq q' = q_head_seq q"
    and "length (q_nodes q') = length (q_nodes q)"
  using assms
  by (auto simp: try_enqueue_fast_closed Let_def split: if_splits)

lemma try_dequeue_fast_frame:
  assumes "try_dequeue_fast q = Some (b, p, s, q')"
  shows "q_total_dequeued q' = q_total_dequeued q"
    and "q_total_failed_dequeues q' = q_total_failed_dequeues q"
    and "q_total_enqueued q' = q_total_enqueued q"
    and "q_total_failed_enqueues q' = q_total_failed_enqueues q"
    and "q_capacity q' = q_capacity q"
    and "q_mask q' = q_mask q"
    and "q_initialized q' = q_initialized q"
    and "q_tail_seq q' = q_tail_seq q"
    and "length (q_nodes q') = length (q_nodes q)"
  using assms
  by (auto simp: try_dequeue_fast_closed Let_def split: if_splits)

lemma enqueue_dequeue_counters:
  assumes "enqueue md q data m = Some (r, q')"
  shows "q_total_dequeued q' = q_total_dequeued q"
    and "q_total_failed_dequeues q' = q_total_failed_dequeues q"
  using assms
  by (auto simp: enqueue_def Let_def try_enqueue_fast_frame
           split: if_splits option.splits prod.splits sum.splits)

lemma dequeue_dequeue_counters:
  assumes "dequeue q = Some (v, q')"
  shows "q_total_dequeued q' = q_total_dequeued q"
    and "q_total_failed_dequeues q' = q_total_failed_dequeues q"
  using assms
  by (auto simp: dequeue_def try_dequeue_fast_frame
           split: if_splits option.splits prod.splits)

lemma run_ops_dequeue_counters:
  "run_ops md q ops = Some (rs, q') \<Longrightarrow>
     q_total_dequeued q' = q_total_dequeued q \<and>
     q_total_failed_dequeues q' = q_total_failed_dequeues q"
proof (induction ops arbitrary: q rs)
  case Nil
  then show ?case by simp
next
  case (Cons op ops)
  show ?case
  proof (cases op)
    case (Enqueue data m)
    with Cons.prems obtain b q1 rs1 where
      s: "enqueue md q data m = Some (b, q1)" and r: "run_ops md q1 ops = Some (rs1, q')"
      by (auto split: option.splits prod.splits)
    from Cons.IH[OF r] enqueue_dequeue_counters[OF s] show ?thesis by simp
  next
    case Dequeue
    with Cons.prems obtain v q1 rs1 where
      s: "dequeue q = Some (v, q1)" and r: "run_ops md q1 ops = Some (rs1, q')"
      by (auto split: option.splits prod.splits)
    from Cons.IH[OF r] dequeue_dequeue_counters[OF s] show ?thesis by simp
  qed
qed

text \<open>
  Claim C10: for every run of enqueue and dequeue calls on a freshly constructed queue,
  \<open>total_dequeued\<close> and \<open>total_failed_dequeues\<close> are 0 afterwards, in the queue and in
  the dictionary of \<open>get_statistics\<close>: neither \<open>dequeue\<close> nor \<open>enqueue\<close> writes
  them, whether it returns or raises. The witness is a run with one successful dequeue,
  after which the statistics show one enqueue, no dequeue and size 0.
\<close>

theorem dequeue_counters_stay_zero:
  assumes "LockFreeQueue_cinit True c = Inr q0"
    and "run_ops md q0 ops = Some (rs, q)"
  shows "q_total_dequeued q = 0 \<and> q_total_failed_dequeues q = 0 \<and>
         st_total_dequeued (get_statistics q) = 0 \<and>
         st_total_failed_dequeues (get_statistics q) = 0"
proof -
  from assms(1) have "q_total_dequeued q0 = 0" "q_total_failed_dequeues q0 = 0"
    by (auto simp: LockFreeQueue_cinit_def Let_def)
  with run_ops_dequeue_counters[OF assms(2)] show ?thesis
    by (simp add: get_statistics_def)
qed

theorem dequeue_counters_stay_zero_witness:
  "\<exists>q0 q. LockFreeQueue_cinit True 2 = Inr q0 \<and>
     run_ops 4300 q0 [Enqueue (PyStr ''a'') True, Dequeue] =
       Some ([Enqueued True, Dequeued (Some ''a'')], q) \<and>
     q_total_dequeued q = 0 \<and> q_total_failed_dequeues q = 0 \<and>
     st_total_dequeued (get_statistics q) = 0 \<and>
     st_total_failed_dequeues (get_statistics q) = 0 \<and>
     st_total_enqueued (get_statistics q) = 1 \<and> st_size (get_statistics q) = 0"
proof -
  obtain q0 where c: "LockFreeQueue_cinit True 2 = Inr q0"
    by (simp add: LockFreeQueue_cinit_def)
  then have q0: "q0 = \<lparr>q_nodes = initialize_nodes 2, q_capacity = 2, q_mask = 1,
         q_head_seq = 0, q_tail_seq = 0, q_committed_seq = 0, q_total_enqueued = 0,
         q_total_dequeued = 0, q_total_failed_enqueues = 0, q_total_failed_dequeues = 0,
         q_initialized = True\<rparr>"
    by (simp add: LockFreeQueue_cinit_def)
  have u: "[0..<2] = [0, 1]" by (simp add: upt_rec)
  obtain q where r: "run_ops 4300 q0 [Enqueue (PyStr ''a'') True, Dequeue] =
       Some ([Enqueued True, Dequeued (Some ''a'')], q)"
    and e: "q_total_enqueued q = 1" "q_size q = 0"
    unfolding q0
    by (simp add: initialize_nodes_def u enqueue_def dequeue_def
        try_enqueue_fast_closed try_dequeue_fast_closed enq_slot_def deq_slot_def
        Let_def q_size_def decode_utf8_def)
  from dequeue_counters_stay_zero[OF c r] c r e show ?thesis
    by (auto simp: get_statistics_def)
qed

subsection \<open>Lock-free queue: word arithmetic of the counters\<close>

lemma unat64_of_nat: "n < 2 ^ 64 \<Longrightarrow> unat (word_of_nat n :: u64) = n"
  by (simp add: unat_of_nat)

lemma unat_take_bit64: "unat (take_bit k (w :: u64)) = unat w mod 2 ^ k"
  by (subst unsigned_take_bit_eq) (simp add: take_bit_eq_mod)

lemma ucast_ucast_low32: "(ucast (ucast (x :: u64) :: u32) :: u64) = take_bit 32 x"
  by (rule bit_word_eqI) (auto simp: bit_simps)

lemma and_not_mask32:
  assumes "n < 2 ^ 32"
  shows "(word_of_nat n :: u64) AND NOT (mask 32) = 0"
proof -
  have "unat (word_of_nat n :: u64) = n" using assms by (simp add: unat_of_nat)
  then have "(word_of_nat n :: u64) < 2 ^ 32"
    using assms by (simp add: word_less_nat_alt)
  then have "(word_of_nat n :: u64) AND mask 32 = word_of_nat n"
    by (rule less_mask_eq)
  then have "(word_of_nat n :: u64) AND NOT (mask 32) = (word_of_nat n AND mask 32) AND NOT (mask 32)"
    by simp
  also have "\<dots> = 0"
    by (simp add: and.assoc)
  finally show ?thesis .
qed

lemma low32_update:
  assumes "n < 2 ^ 32"
  shows "((word_of_nat n :: u64) AND NOT (mask 32)) OR ucast (ucast (word_of_nat n + 1 :: u64) :: u32)
         = word_of_nat ((n + 1) mod 2 ^ 32)"
proof -
  have "(word_of_nat n + 1 :: u64) = word_of_nat (n + 1)" by simp
  moreover have "unat (word_of_nat (n + 1) :: u64) = n + 1"
    using assms by (intro unat64_of_nat) simp
  moreover have "unat (word_of_nat ((n + 1) mod 2 ^ 32) :: u64) = (n + 1) mod 2 ^ 32"
  proof (intro unat64_of_nat)
    have "(n + 1) mod 2 ^ 32 < (2 ^ 32 :: nat)" by simp
    then show "(n + 1) mod 2 ^ 32 < (2 ^ 64 :: nat)" by simp
  qed
  ultimately have "take_bit 32 (word_of_nat n + 1 :: u64) = word_of_nat ((n + 1) mod 2 ^ 32)"
    by (simp only: word_unat_eq_iff unat_take_bit64)
  then show ?thesis
    by (simp add: and_not_mask32[OF assms] ucast_ucast_low32)
qed

lemma ucast_pow2_mask:
  assumes "k < 32"
  shows "(ucast ((2::u32) ^ k - 1) :: u64) = mask k"
  using assms by (simp add: ucast_mask_eq flip: mask_eq_exp_minus_1)

lemma slot_index:
  assumes "k < 32" and "n < 2 ^ 32"
  shows "unat (ucast ((word_of_nat n :: u64) AND ucast ((2::u32) ^ k - 1)) :: u32) = n mod 2 ^ k"
proof -
  have n: "unat (word_of_nat n :: u64) = n"
    using assms(2) by (intro unat64_of_nat) simp
  have b: "n mod 2 ^ k < 2 ^ 32"
    using assms(2) by (meson le_less_trans mod_less_eq_dividend)
  have "(word_of_nat n :: u64) AND ucast ((2::u32) ^ k - 1) = take_bit k (word_of_nat n :: u64)"
    by (simp add: ucast_pow2_mask[OF assms(1)] take_bit_eq_mask)
  moreover have "unat (take_bit k (word_of_nat n :: u64)) = n mod 2 ^ k"
    by (simp only: unat_take_bit64 n)
  ultimately show ?thesis
    using b by (simp add: unsigned_ucast_eq take_bit_eq_mod)
qed

subsection \<open>Lock-free queue: one step on the ring\<close>

lemma w64_inj:
  "a < 2 ^ 64 \<Longrightarrow> b < 2 ^ 64 \<Longrightarrow> (word_of_nat a :: u64) = word_of_nat b \<longleftrightarrow> a = b"
  by (simp add: word_of_nat_eq_iff take_bit_nat_eq_self)

lemma w64_less:
  "a < 2 ^ 64 \<Longrightarrow> b < 2 ^ 64 \<Longrightarrow> (word_of_nat a :: u64) < word_of_nat b \<longleftrightarrow> a < b"
  by (simp add: word_of_nat_less_iff take_bit_nat_eq_self)

lemma mod_window_inj:
  fixes a b m :: nat
  assumes "a \<le> b" "b < a + m" "a mod m = b mod m"
  shows "a = b"
proof -
  from assms(1,3) have "m dvd b - a"
    by (metis mod_eq_dvd_iff_nat)
  moreover from assms(1,2) have "b - a < m" by simp
  ultimately have "b - a = 0"
    by (meson dvd_imp_le not_less zero_less_iff_neq_zero)
  with assms(1) show ?thesis by simp
qed

lemma mod_window_neq:
  fixes p p' m H :: nat
  assumes "H \<le> p" "p < H + m" "H \<le> p'" "p' < H + m" "p \<noteq> p'"
  shows "p mod m \<noteq> p' mod m"
proof
  assume e: "p mod m = p' mod m"
  show False
  proof (cases "p \<le> p'")
    case True
    with assms e have "p = p'" by (intro mod_window_inj[of p p' m]) auto
    with assms show False by simp
  next
    case False
    with assms e have "p' = p" by (intro mod_window_inj[of p' p m]) auto
    with assms show False by simp
  qed
qed

lemma ring_inv_enq_slot:
  assumes "ring_inv k q H T items" "T < 2 ^ 32"
  shows "enq_slot q = T mod 2 ^ k"
  using assms slot_index[of k T]
  by (simp add: ring_inv_def enq_slot_def)

lemma ring_inv_deq_slot:
  assumes "ring_inv k q H T items" "H < 2 ^ 32"
  shows "deq_slot q = H mod 2 ^ k"
  using assms slot_index[of k H]
  by (simp add: ring_inv_def deq_slot_def)

lemma pow2k_bound: "k < 32 \<Longrightarrow> (2::nat) ^ k < 2 ^ 32"
  using power_strict_increasing[of k 32 "2::nat"] by simp

lemma ring_inv_enqueue_ok:
  assumes inv: "ring_inv k q H T items" and room: "T < H + 2 ^ k" and nowrap: "T < 2 ^ 32"
  shows "\<exists>q'. try_enqueue_fast q d s = Some (True, q') \<and>
              ring_inv k q' H (Suc T) (items @ [(d, s)])"
proof -
  let ?i = "T mod 2 ^ k"
  let ?node = "q_nodes q ! ?i"
  let ?q' = "q\<lparr>q_tail_seq := (q_tail_seq q AND NOT (mask 32)) OR
                              ucast (ucast (q_tail_seq q + 1) :: u32),
                 q_nodes := (q_nodes q)[?i := ?node\<lparr>node_data := Some d, node_data_size := s,
                              node_sequence := q_tail_seq q + 1\<rparr>]\<rparr>"
  from inv have k: "k < 32" and len: "length (q_nodes q) = 2 ^ k"
    and HT: "H \<le> T" and litems: "length items = T - H"
    and fl: "\<And>p. H \<le> p \<Longrightarrow> p < T \<Longrightarrow> filled (q_nodes q ! (p mod 2 ^ k)) (items ! (p - H)) p"
    and fr: "\<And>p. T \<le> p \<Longrightarrow> p < H + 2 ^ k \<Longrightarrow>
                 node_sequence (q_nodes q ! (p mod 2 ^ k)) = word_of_nat p"
    by (auto simp: ring_inv_def)
  from inv nowrap have tail: "q_tail_seq q = word_of_nat T" by (simp add: ring_inv_def)
  have slot: "enq_slot q = ?i" by (rule ring_inv_enq_slot[OF inv nowrap])
  have seq: "node_sequence ?node = word_of_nat T" using fr[of T] room by simp
  have run: "try_enqueue_fast q d s = Some (True, ?q')"
    by (simp add: try_enqueue_fast_closed slot seq tail Let_def)
  have tail': "q_tail_seq ?q' = word_of_nat (Suc T mod 2 ^ 32)"
    using low32_update[OF nowrap] by (simp add: tail)
  have ilt: "?i < length (q_nodes q)" by (simp add: len)
  have "ring_inv k ?q' H (Suc T) (items @ [(d, s)])"
    unfolding ring_inv_def
  proof (intro conjI allI impI)
    fix p assume p: "H \<le> p \<and> p < Suc T"
    show "filled (q_nodes ?q' ! (p mod 2 ^ k)) ((items @ [(d, s)]) ! (p - H)) p"
    proof (cases "p = T")
      case True
      then show ?thesis using ilt litems HT
        by (simp add: filled_def tail nth_append)
    next
      case False
      with p have pT: "p < T" by simp
      have "p mod 2 ^ k \<noteq> ?i"
        using mod_window_neq[of H p "2 ^ k" T] p pT room HT by simp
      moreover have "p - H < length items" using p pT litems by simp
      ultimately show ?thesis using fl[of p] p pT
        by (simp add: nth_append)
    qed
  next
    fix p assume p: "Suc T \<le> p \<and> p < H + 2 ^ k"
    have "p mod 2 ^ k \<noteq> ?i"
      using mod_window_neq[of H p "2 ^ k" T] p room HT by simp
    then show "node_sequence (q_nodes ?q' ! (p mod 2 ^ k)) = word_of_nat p"
      using fr[of p] p by simp
  qed (use inv room nowrap tail' in \<open>auto simp: ring_inv_def\<close>)
  with run show ?thesis by blast
qed

lemma ring_inv_filled:
  "ring_inv k q H T items \<Longrightarrow> H \<le> p \<Longrightarrow> p < T \<Longrightarrow>
     filled (q_nodes q ! (p mod 2 ^ k)) (items ! (p - H)) p"
  by (simp add: ring_inv_def)

lemma ring_inv_free:
  "ring_inv k q H T items \<Longrightarrow> T \<le> p \<Longrightarrow> p < H + 2 ^ k \<Longrightarrow>
     node_sequence (q_nodes q ! (p mod 2 ^ k)) = word_of_nat p"
  by (simp add: ring_inv_def)

lemma pow32_mod_pow2k: "k < 32 \<Longrightarrow> (2 ^ 32 :: nat) mod 2 ^ k = 0"
  by (intro dvd_imp_mod_0 le_imp_power_dvd) simp

lemma ring_inv_enqueue_full:
  assumes inv: "ring_inv k q H T items" and full: "T = H + 2 ^ k" and nowrap: "T < 2 ^ 32"
    and k1: "0 < k"
  shows "try_enqueue_fast q d s = Some (False, q)"
proof -
  from inv nowrap have tail: "q_tail_seq q = word_of_nat T" by (simp add: ring_inv_def)
  have slot: "enq_slot q = T mod 2 ^ k" by (rule ring_inv_enq_slot[OF inv nowrap])
  have "T mod 2 ^ k = H mod 2 ^ k" using full by simp
  moreover have "filled (q_nodes q ! (H mod 2 ^ k)) (items ! (H - H)) H"
    using full by (intro ring_inv_filled[OF inv]) auto
  ultimately have seq: "node_sequence (q_nodes q ! enq_slot q) = word_of_nat (Suc H)"
    by (simp add: slot filled_def)
  have "(2::nat) ^ k \<ge> 2" using k1 by (cases k) auto
  then have "Suc H < T" using full by simp
  then have "(word_of_nat (Suc H) :: u64) < word_of_nat T"
    using nowrap by (subst w64_less) auto
  then show ?thesis
    by (simp add: try_enqueue_fast_closed seq tail Let_def)
qed

lemma ring_inv_enqueue_wrapped:
  assumes inv: "ring_inv k q H T items" and wrap: "T = 2 ^ 32"
  shows "try_enqueue_fast q d s = None"
proof -
  from inv wrap have tail: "q_tail_seq q = 0" by (simp add: ring_inv_def)
  from inv have k: "k < 32" by (simp add: ring_inv_def)
  have slot: "enq_slot q = T mod 2 ^ k"
    using slot_index[of k 0] k inv pow32_mod_pow2k[OF k]
    by (simp add: enq_slot_def tail ring_inv_def wrap)
  from inv have HT: "H \<le> T" "T \<le> H + 2 ^ k" by (auto simp: ring_inv_def)
  have "\<exists>n. 0 < n \<and> n < 2 ^ 64 \<and> node_sequence (q_nodes q ! (T mod 2 ^ k)) = word_of_nat n"
  proof (cases "T < H + 2 ^ k")
    case True
    then have "node_sequence (q_nodes q ! (T mod 2 ^ k)) = word_of_nat T"
      by (intro ring_inv_free[OF inv]) auto
    then show ?thesis using wrap by (intro exI[of _ T]) simp
  next
    case False
    with HT have full: "T = H + 2 ^ k" by simp
    then have "T mod 2 ^ k = H mod 2 ^ k" by simp
    moreover have "filled (q_nodes q ! (H mod 2 ^ k)) (items ! (H - H)) H"
      using full by (intro ring_inv_filled[OF inv]) auto
    ultimately have "node_sequence (q_nodes q ! (T mod 2 ^ k)) = word_of_nat (Suc H)"
      by (simp add: filled_def)
    moreover have "Suc H < 2 ^ 64" using HT wrap by simp
    ultimately show ?thesis by (intro exI[of _ "Suc H"]) simp
  qed
  then obtain n where n: "0 < n" "n < 2 ^ 64"
    "node_sequence (q_nodes q ! enq_slot q) = word_of_nat n"
    by (auto simp: slot)
  have "(word_of_nat 0 :: u64) < word_of_nat n" using n by (subst w64_less) auto
  then have "(0 :: u64) < word_of_nat n" by simp
  then show ?thesis
    by (simp add: try_enqueue_fast_closed n tail Let_def)
qed

lemma ring_inv_dequeue_ok:
  assumes inv: "ring_inv k q H T items" and nonempty: "H < T"
  shows "\<exists>q'. try_dequeue_fast q = Some (True, Some (fst (hd items)), snd (hd items), q') \<and>
              ring_inv k q' (Suc H) T (tl items)"
proof -
  let ?i = "H mod 2 ^ k"
  let ?node = "q_nodes q ! ?i"
  let ?q' = "q\<lparr>q_head_seq := (q_head_seq q AND NOT (mask 32)) OR
                              ucast (ucast (q_head_seq q + 1) :: u32),
                 q_nodes := (q_nodes q)[?i := ?node\<lparr>node_data := None, node_data_size := 0,
                              node_sequence := q_head_seq q + 1 + ucast (q_mask q)\<rparr>]\<rparr>"
  from inv have k: "k < 32" and len: "length (q_nodes q) = 2 ^ k"
    and T32: "T \<le> 2 ^ 32" and litems: "length items = T - H" and TH: "T \<le> H + 2 ^ k"
    and msk: "q_mask q = 2 ^ k - 1"
    and fl: "\<And>p. H \<le> p \<Longrightarrow> p < T \<Longrightarrow> filled (q_nodes q ! (p mod 2 ^ k)) (items ! (p - H)) p"
    and fr: "\<And>p. T \<le> p \<Longrightarrow> p < H + 2 ^ k \<Longrightarrow>
                 node_sequence (q_nodes q ! (p mod 2 ^ k)) = word_of_nat p"
    by (auto simp: ring_inv_def)
  from nonempty T32 have nowrap: "H < 2 ^ 32" by simp
  from inv nowrap have head: "q_head_seq q = word_of_nat H" by (simp add: ring_inv_def)
  have slot: "deq_slot q = ?i" by (rule ring_inv_deq_slot[OF inv nowrap])
  from litems nonempty obtain it rest where items: "items = it # rest" by (cases items) auto
  have f0: "filled ?node it H" using fl[of H] nonempty items by simp
  then have seq: "node_sequence ?node = q_head_seq q + 1" by (simp add: filled_def head)
  have run: "try_dequeue_fast q = Some (True, Some (fst it), snd it, ?q')"
    using f0 by (simp add: try_dequeue_fast_closed slot seq Let_def filled_def)
  have head': "q_head_seq ?q' = word_of_nat (Suc H mod 2 ^ 32)"
    using low32_update[OF nowrap] by (simp add: head)
  have ilt: "?i < length (q_nodes q)" by (simp add: len)
  have "(ucast (q_mask q) :: u64) = word_of_nat (2 ^ k - 1)"
    using ucast_pow2_mask[OF k] by (simp add: msk mask_eq_exp_minus_1 of_nat_diff)
  then have newseq: "q_head_seq q + 1 + ucast (q_mask q) = (word_of_nat (H + 2 ^ k) :: u64)"
    by (simp add: head of_nat_diff)
  have "ring_inv k ?q' (Suc H) T (tl items)"
    unfolding ring_inv_def
  proof (intro conjI allI impI)
    fix p assume p: "Suc H \<le> p \<and> p < T"
    have "p mod 2 ^ k \<noteq> ?i"
      using mod_window_neq[of H p "2 ^ k" H] p TH by simp
    moreover have "p - H = Suc (p - Suc H)" using p by arith
    then have "tl items ! (p - Suc H) = items ! (p - H)"
      using items by simp
    ultimately show "filled (q_nodes ?q' ! (p mod 2 ^ k)) (tl items ! (p - Suc H)) p"
      using fl[of p] p by simp
  next
    fix p assume p: "T \<le> p \<and> p < Suc H + 2 ^ k"
    show "node_sequence (q_nodes ?q' ! (p mod 2 ^ k)) = word_of_nat p"
    proof (cases "p = H + 2 ^ k")
      case True
      then show ?thesis using ilt newseq by simp
    next
      case False
      with p have pl: "p < H + 2 ^ k" by simp
      have "p mod 2 ^ k \<noteq> ?i"
        using mod_window_neq[of H p "2 ^ k" H] p pl nonempty by simp
      then show ?thesis using fr[of p] p pl by simp
    qed
  qed (use inv nonempty head' litems in \<open>auto simp: ring_inv_def\<close>)
  with run items show ?thesis by auto
qed

lemma ring_inv_dequeue_empty:
  assumes inv: "ring_inv k q H T items" and empty: "H = T" and nowrap: "H < 2 ^ 32"
  shows "try_dequeue_fast q = Some (False, None, 0, q)"
proof -
  from inv nowrap have head: "q_head_seq q = word_of_nat H" by (simp add: ring_inv_def)
  have slot: "deq_slot q = H mod 2 ^ k" by (rule ring_inv_deq_slot[OF inv nowrap])
  from inv have k: "k < 32" by (simp add: ring_inv_def)
  have seq: "node_sequence (q_nodes q ! deq_slot q) = word_of_nat H"
    unfolding slot using empty by (intro ring_inv_free[OF inv]) auto
  have "(word_of_nat H :: u64) < word_of_nat (Suc H)"
    using nowrap by (subst w64_less) auto
  then have "(word_of_nat H :: u64) < word_of_nat H + 1" by (simp add: add.commute)
  then show ?thesis
    by (simp add: try_dequeue_fast_closed seq head Let_def)
qed

lemma ring_inv_dequeue_wrapped:
  assumes inv: "ring_inv k q H T items" and empty: "H = T" and wrap: "H = 2 ^ 32"
  shows "try_dequeue_fast q = None"
proof -
  from inv wrap have head: "q_head_seq q = 0" by (simp add: ring_inv_def)
  from inv have k: "k < 32" by (simp add: ring_inv_def)
  have slot: "deq_slot q = H mod 2 ^ k"
    using slot_index[of k 0] k inv pow32_mod_pow2k[OF k]
    by (simp add: deq_slot_def head ring_inv_def wrap)
  have seq: "node_sequence (q_nodes q ! deq_slot q) = word_of_nat H"
    unfolding slot using empty by (intro ring_inv_free[OF inv]) auto
  have "(word_of_nat 1 :: u64) < word_of_nat H" using wrap by (subst w64_less) auto
  then have "(0 :: u64) + 1 < word_of_nat H" by simp
  moreover have "(word_of_nat H :: u64) \<noteq> word_of_nat 0"
    using wrap by (subst w64_inj) auto
  ultimately show ?thesis
    by (simp add: try_dequeue_fast_closed seq head Let_def)
qed

subsection \<open>Lock-free queue: the Python-level calls on the ring\<close>

lemma ring_inv_counters [simp]:
  "ring_inv k (q\<lparr>q_total_enqueued := a\<rparr>) H T items = ring_inv k q H T items"
  "ring_inv k (q\<lparr>q_total_failed_enqueues := b\<rparr>) H T items = ring_inv k q H T items"
  by (simp_all add: ring_inv_def)

lemma stuck_counters [simp]:
  "stuck (q\<lparr>q_total_enqueued := a\<rparr>) = stuck q"
  "stuck (q\<lparr>q_total_failed_enqueues := b\<rparr>) = stuck q"
  by (simp_all add: stuck_def)

lemma item_value_stored:
  "item_value (take (unat (word_of_nat (length b) :: u32)) b, word_of_nat (length b))
     = stored_buffer b"
  by (simp add: item_value_def stored_buffer_def)

lemma stored_form_encoded:
  assumes "py_str md d = Inr b"
  shows "stored_form md d = decode_utf8 (stored_buffer b)"
  using assms by (simp add: stored_form_def)

lemma enqueue_raises:
  assumes "q_initialized q" "py_str md d = Inl e"
  shows "enqueue md q d m = Some (Inl e, q)"
  using assms by (simp add: enqueue_def)

lemma enqueue_ok:
  assumes "ring_inv k q H T items" "q_initialized q" "T < H + 2 ^ k" "T < 2 ^ 32"
    and enc: "py_str md d = Inr b"
  shows "\<exists>q' it. enqueue md q d True = Some (Inr True, q') \<and>
           decode_utf8 (item_value it) = stored_form md d \<and>
           ring_inv k q' H (Suc T) (items @ [it]) \<and> q_initialized q'"
proof -
  let ?b = "take (unat (word_of_nat (length b) :: u32)) b"
  let ?s = "word_of_nat (length b) :: u32"
  from ring_inv_enqueue_ok[OF assms(1,3,4), of ?b ?s]
  obtain q' where r: "try_enqueue_fast q ?b ?s = Some (True, q')"
    and i: "ring_inv k q' H (Suc T) (items @ [(?b, ?s)])" by blast
  from try_enqueue_fast_frame(7)[OF r] assms(2) have "q_initialized q'" by simp
  moreover have "decode_utf8 (item_value (?b, ?s)) = stored_form md d"
    by (simp only: item_value_stored stored_form_encoded[OF enc])
  ultimately show ?thesis using r i assms(2) enc
    by (auto simp: enqueue_def Let_def)
qed

lemma enqueue_nomem:
  assumes "ring_inv k q H T items" "q_initialized q" "py_str md d = Inr b"
  shows "\<exists>q'. enqueue md q d False = Some (Inr False, q') \<and> ring_inv k q' H T items \<and>
           q_initialized q'"
  using assms by (simp add: enqueue_def Let_def)

lemma enqueue_full:
  assumes "ring_inv k q H T items" "q_initialized q" "T = H + 2 ^ k" "T < 2 ^ 32" "0 < k"
    and "py_str md d = Inr b"
  shows "\<exists>q'. enqueue md q d True = Some (Inr False, q') \<and> ring_inv k q' H T items \<and>
           q_initialized q'"
  using assms ring_inv_enqueue_full[OF assms(1,3,4,5)]
  by (simp add: enqueue_def Let_def)

lemma enqueue_wrapped:
  assumes "ring_inv k q H T items" "q_initialized q" "T = 2 ^ 32" "py_str md d = Inr b"
  shows "enqueue md q d True = None"
  using assms ring_inv_enqueue_wrapped[OF assms(1,3)]
  by (simp add: enqueue_def Let_def)

lemma dequeue_ok:
  assumes "ring_inv k q H T items" "q_initialized q" "H < T"
  shows "\<exists>q'. dequeue q = Some (decode_utf8 (item_value (hd items)), q') \<and>
           ring_inv k q' (Suc H) T (tl items) \<and> q_initialized q'"
proof -
  from ring_inv_dequeue_ok[OF assms(1,3)]
  obtain q' where r: "try_dequeue_fast q = Some (True, Some (fst (hd items)), snd (hd items), q')"
    and i: "ring_inv k q' (Suc H) T (tl items)" by blast
  from try_dequeue_fast_frame(7)[OF r] assms(2) have "q_initialized q'" by simp
  with r i show ?thesis by (auto simp: dequeue_def item_value_def)
qed

lemma dequeue_empty:
  assumes "ring_inv k q H T items" "H = T" "H < 2 ^ 32"
  shows "dequeue q = Some (None, q)"
  using ring_inv_dequeue_empty[OF assms] by (simp add: dequeue_def)

lemma dequeue_wrapped:
  assumes "ring_inv k q H T items" "H = T" "H = 2 ^ 32"
  shows "dequeue q = None"
  using ring_inv_dequeue_wrapped[OF assms] by (simp add: dequeue_def)

lemma stuck_dequeue:
  assumes "stuck q"
  shows "dequeue q = None"
proof -
  from assms have slot: "deq_slot q = 0" by (simp add: stuck_def deq_slot_def)
  have "unat (q_head_seq q + 1) \<le> unat (q_head_seq q) + 1"
    by (simp add: unat_word_ariths)
  with assms have "q_head_seq q + 1 < node_sequence (q_nodes q ! 0)"
    by (simp add: stuck_def word_less_nat_alt)
  then show ?thesis
    by (auto simp: dequeue_def try_dequeue_fast_closed slot Let_def)
qed

lemma unat_succ_small:
  fixes w :: u64
  assumes "unat w < 2 ^ 32"
  shows "unat (w + 1) = unat w + 1"
  using assms by (simp add: unat_word_ariths)

lemma low32_update_word:
  fixes w :: u64
  assumes "unat w < 2 ^ 32"
  shows "unat ((w AND NOT (mask 32)) OR ucast (ucast (w + 1) :: u32)) < 2 ^ 32"
proof -
  have "w = word_of_nat (unat w)" by simp
  then have "(w AND NOT (mask 32)) OR ucast (ucast (w + 1) :: u32)
        = word_of_nat ((unat w + 1) mod 2 ^ 32)"
    using low32_update[OF assms] by simp
  moreover have "(unat w + 1) mod 2 ^ 32 < (2 ^ 32 :: nat)" by simp
  ultimately show ?thesis by (simp add: unat_of_nat)
qed

lemma stuck_enqueue:
  assumes "stuck q" "enqueue md q d m = Some (r, q')"
  shows "stuck q'"
proof -
  from assms(1) have slot: "enq_slot q = 0" by (simp add: stuck_def enq_slot_def)
  from assms(1) have t: "unat (q_tail_seq q) < 2 ^ 32" by (simp add: stuck_def)
  show ?thesis
  proof (cases "q_initialized q \<and> m \<and>
      node_sequence (q_nodes q ! 0) = q_tail_seq q")
    case False
    with assms show ?thesis
      by (auto simp: enqueue_def Let_def try_enqueue_fast_closed slot
               split: if_splits option.splits sum.splits)
  next
    case True
    with assms(1) have "unat (q_head_seq q) + 1 < unat (q_tail_seq q + 1)"
      by (simp add: stuck_def unat_succ_small[OF t])
    with True assms low32_update_word[OF t] show ?thesis
      by (auto simp: enqueue_def Let_def try_enqueue_fast_closed slot stuck_def
               split: if_splits option.splits sum.splits)
  qed
qed

lemma enqueue_to_stuck:
  assumes inv: "ring_inv 0 q H T items" and i: "q_initialized q" and full: "T = Suc H"
    and nowrap: "T < 2 ^ 32" and enc: "py_str md d = Inr b"
  shows "\<exists>q'. enqueue md q d True = Some (Inr True, q') \<and> stuck q'"
proof -
  from inv nowrap have tail: "q_tail_seq q = word_of_nat T" by (simp add: ring_inv_def)
  from inv nowrap full have head: "q_head_seq q = word_of_nat H" by (simp add: ring_inv_def)
  from inv have m: "q_mask q = 0" and len: "length (q_nodes q) = 1"
    by (simp_all add: ring_inv_def)
  have slot: "enq_slot q = 0" by (simp add: m enq_slot_def)
  have "filled (q_nodes q ! (H mod 2 ^ 0)) (items ! (H - H)) H"
    using full by (intro ring_inv_filled[OF inv]) auto
  then have seq: "node_sequence (q_nodes q ! 0) = word_of_nat T"
    by (simp add: filled_def full)
  have uT: "unat (word_of_nat T :: u64) = T" using nowrap by (intro unat64_of_nat) simp
  have uH: "unat (word_of_nat H :: u64) = H" using nowrap full by (intro unat64_of_nat) simp
  have t32: "unat (word_of_nat T :: u64) < 2 ^ 32" using uT nowrap by simp
  have uT1: "unat (word_of_nat T + 1 :: u64) = T + 1"
    using unat_succ_small[OF t32] uT by simp
  let ?b = "take (unat (word_of_nat (length b) :: u32)) b"
  let ?s = "word_of_nat (length b) :: u32"
  let ?q' = "q\<lparr>q_tail_seq := (q_tail_seq q AND NOT (mask 32)) OR
                              ucast (ucast (q_tail_seq q + 1) :: u32),
                 q_nodes := (q_nodes q)[0 := (q_nodes q ! 0)\<lparr>node_data := Some ?b,
                              node_data_size := ?s,
                              node_sequence := q_tail_seq q + 1\<rparr>]\<rparr>"
  have run: "try_enqueue_fast q ?b ?s = Some (True, ?q')"
    by (simp add: try_enqueue_fast_closed slot seq tail Let_def)
  have "node_sequence (q_nodes ?q' ! 0) = q_tail_seq q + 1"
    using len by simp
  then have "unat (q_head_seq ?q') + 1 < unat (node_sequence (q_nodes ?q' ! 0))"
    using uT1 uH full by (simp add: tail head)
  moreover have "unat (q_tail_seq ?q') < 2 ^ 32"
    using low32_update_word[OF t32] by (simp add: tail)
  moreover have "q_nodes ?q' \<noteq> []" using len by auto
  ultimately have "stuck ?q'" using m by (simp add: stuck_def)
  then have "stuck (?q'\<lparr>q_total_enqueued := q_total_enqueued ?q' + 1\<rparr>)"
    by (simp only: stuck_counters)
  with run i enc show ?thesis
    by (simp add: enqueue_def Let_def)
qed

lemma cinit_ring_inv:
  assumes "LockFreeQueue_cinit True c = Inr q"
  shows "\<exists>k. ring_inv k q 0 0 [] \<and> q_initialized q \<and>
              q_capacity q = (if is_power_of_two c then c else DEFAULT_QUEUE_SIZE)"
proof -
  let ?cap = "if is_power_of_two c then c else DEFAULT_QUEUE_SIZE"
  have "\<exists>k<32. ?cap = 2 ^ k"
  proof (cases "is_power_of_two c")
    case True
    then show ?thesis by (simp add: is_power_of_two_iff)
  next
    case False
    have "DEFAULT_QUEUE_SIZE = 2 ^ 16" by (simp add: DEFAULT_QUEUE_SIZE_def)
    with False show ?thesis by (intro exI[of _ 16]) simp
  qed
  then obtain k where k: "k < 32" "?cap = 2 ^ k" by blast
  have q: "q = \<lparr>q_nodes = initialize_nodes ?cap, q_capacity = ?cap, q_mask = ?cap - 1,
         q_head_seq = 0, q_tail_seq = 0, q_committed_seq = 0, q_total_enqueued = 0,
         q_total_dequeued = 0, q_total_failed_enqueues = 0, q_total_failed_dequeues = 0,
         q_initialized = True\<rparr>"
    using assms word_pow2_check[of c]
    by (auto simp: LockFreeQueue_cinit_def Let_def is_power_of_two_iff)
  have "(2::u32) ^ k = word_of_nat (2 ^ k)" by simp
  moreover have "(2::nat) ^ k < 2 ^ 32" by (rule pow2k_bound[OF k(1)])
  ultimately have u: "unat ((2::u32) ^ k) = 2 ^ k"
    by (simp only: unat_of_nat) simp
  have "ring_inv k q 0 0 []"
    unfolding q k(2) using k(1)
    by (auto simp: ring_inv_def initialize_nodes_def u)
  with q k show ?thesis by auto
qed

subsection \<open>Lock-free queue: runs\<close>

lemma run_ops_EnqueueE:
  assumes "run_ops md q (Enqueue d m # ops) = Some (rs, q')"
  obtains r q1 rs1 where "enqueue md q d m = Some (r, q1)"
    "run_ops md q1 ops = Some (rs1, q')"
    "rs = (case r of Inl e \<Rightarrow> EnqueueRaised e | Inr b \<Rightarrow> Enqueued b) # rs1"
  using assms by (auto split: option.splits prod.splits)

lemma run_ops_DequeueE:
  assumes "run_ops md q (Dequeue # ops) = Some (rs, q')"
  obtains v q1 rs1 where "dequeue q = Some (v, q1)" "run_ops md q1 ops = Some (rs1, q')"
    "rs = Dequeued v # rs1"
  using assms by (auto split: option.splits prod.splits)

lemma popped_enqueue_result [simp]:
  "popped ((case r of Inl e \<Rightarrow> EnqueueRaised e | Inr b \<Rightarrow> Enqueued b) # rs) = popped rs"
  by (cases r) simp_all

lemma present_append: "present (xs @ ys) = present xs @ present ys"
  by (induction xs rule: present.induct) simp_all

lemma length_present: "length (present xs) \<le> length xs"
  by (induction xs rule: present.induct) simp_all

lemma present_all:
  "length (present xs) = length xs \<Longrightarrow> map Some (present xs) = xs"
proof (induction xs rule: present.induct)
  case (2 xs)
  with length_present[of xs] show ?case by simp
qed simp_all

lemma run_stuck:
  "stuck q \<Longrightarrow> run_ops md q ops = Some (rs, q') \<Longrightarrow> popped rs = []"
proof (induction ops arbitrary: q rs)
  case Nil
  then show ?case by simp
next
  case (Cons op ops)
  show ?case
  proof (cases op)
    case (Enqueue d m)
    from Cons.prems(2)[unfolded Enqueue] obtain r q1 rs1 where
      s: "enqueue md q d m = Some (r, q1)" and r: "run_ops md q1 ops = Some (rs1, q')"
      and rs: "rs = (case r of Inl e \<Rightarrow> EnqueueRaised e | Inr b \<Rightarrow> Enqueued b) # rs1"
      by (rule run_ops_EnqueueE)
    from stuck_enqueue[OF Cons.prems(1) s] have "stuck q1" .
    from Cons.IH[OF this r] rs show ?thesis by simp
  next
    case Dequeue
    with Cons.prems(2) stuck_dequeue[OF Cons.prems(1)] show ?thesis
      by simp
  qed
qed

lemma run_prefix:
  "ring_inv k q H T items \<Longrightarrow> q_initialized q \<Longrightarrow> run_ops md q ops = Some (rs, q') \<Longrightarrow>
     prefix (popped rs)
       (present (map (\<lambda>it. decode_utf8 (item_value it)) items) @
        present (map (stored_form md) (pushed ops rs)))"
proof (induction ops arbitrary: q H T items rs)
  case Nil
  then show ?case by simp
next
  case (Cons op ops)
  note inv = Cons.prems(1) and ini = Cons.prems(2)
  from inv have bounds: "H \<le> T" "T \<le> H + 2 ^ k" "T \<le> 2 ^ 32" "length items = T - H"
    by (auto simp: ring_inv_def)
  show ?case
  proof (cases op)
    case (Enqueue d m)
    from Cons.prems(3)[unfolded Enqueue] obtain r0 q1 rs1 where
      s: "enqueue md q d m = Some (r0, q1)" and r: "run_ops md q1 ops = Some (rs1, q')"
      and rs: "rs = (case r0 of Inl e \<Rightarrow> EnqueueRaised e | Inr b \<Rightarrow> Enqueued b) # rs1"
      by (rule run_ops_EnqueueE)
    show ?thesis
    proof (cases "py_str md d")
      case (Inl e)
      from enqueue_raises[OF ini Inl, of m] s have "r0 = Inl e" "q1 = q" by simp_all
      with Cons.IH[OF inv ini] r rs Enqueue show ?thesis by simp
    next
      case (Inr b)
      show ?thesis
      proof (cases m)
        case False
        with enqueue_nomem[OF inv ini Inr] s have "r0 = Inr False" "ring_inv k q1 H T items"
          "q_initialized q1" by auto
        from Cons.IH[OF this(2,3) r] this(1) rs Enqueue show ?thesis by simp
      next
        case True
        with enqueue_wrapped[OF inv ini _ Inr] s bounds have nowrap: "T < 2 ^ 32"
          by (cases "T = 2 ^ 32") auto
        consider (room) "T < H + 2 ^ k" | (full) "T = H + 2 ^ k" "0 < k"
          | (one) "T = Suc H" "k = 0"
        proof (cases "k = 0")
          case True
          with bounds(2) have "T < H + 2 ^ k \<or> T = Suc H" by auto
          with True that show ?thesis by blast
        next
          case False
          with bounds(2) have "T < H + 2 ^ k \<or> (T = H + 2 ^ k \<and> 0 < k)" by auto
          with that show ?thesis by blast
        qed
        then show ?thesis
        proof cases
          case room
          from enqueue_ok[OF inv ini room nowrap Inr] s True
          obtain it where "r0 = Inr True" "decode_utf8 (item_value it) = stored_form md d"
            "ring_inv k q1 H (Suc T) (items @ [it])" "q_initialized q1" by auto
          from Cons.IH[OF this(3,4) r] this(1,2) rs Enqueue show ?thesis
            by (cases "stored_form md d") (simp_all add: present_append)
        next
          case full
          from enqueue_full[OF inv ini full(1) nowrap full(2) Inr] s True
          have "r0 = Inr False" "ring_inv k q1 H T items" "q_initialized q1" by auto
          from Cons.IH[OF this(2,3) r] this(1) rs Enqueue show ?thesis by simp
        next
          case one
          from inv one have "ring_inv 0 q H T items" by simp
          from enqueue_to_stuck[OF this ini one(1) nowrap Inr] s True
          have "stuck q1" by auto
          from run_stuck[OF this r] rs show ?thesis by simp
        qed
      qed
    qed
  next
    case Dequeue
    from Cons.prems(3)[unfolded Dequeue] obtain v q1 rs1 where
      s: "dequeue q = Some (v, q1)" and r: "run_ops md q1 ops = Some (rs1, q')"
      and rs: "rs = Dequeued v # rs1"
      by (rule run_ops_DequeueE)
    show ?thesis
    proof (cases "H < T")
      case True
      from dequeue_ok[OF inv ini True] s
      have v: "v = decode_utf8 (item_value (hd items))"
        and i1: "ring_inv k q1 (Suc H) T (tl items)"
        and ini1: "q_initialized q1" by auto
      from True bounds obtain it rest where items: "items = it # rest"
        by (cases items) auto
      from Cons.IH[OF i1 ini1 r] v rs Dequeue items show ?thesis
        by (cases "decode_utf8 (item_value it)") simp_all
    next
      case False
      with bounds have e: "H = T" by simp
      with dequeue_wrapped[OF inv e] s bounds have nowrap: "H < 2 ^ 32"
        by (cases "H = 2 ^ 32") auto
      from dequeue_empty[OF inv e nowrap] s have "v = None" "q1 = q" by auto
      with Cons.IH[OF inv ini] r rs Dequeue show ?thesis by simp
    qed
  qed
qed

lemma run_refines:
  "ring_inv k q H T items \<Longrightarrow> q_initialized q \<Longrightarrow> 0 < k \<Longrightarrow> T + length ops \<le> 2 ^ 32 \<Longrightarrow>
     \<exists>q'. run_ops md q ops =
       Some (fifo_run md (2 ^ k) (map (\<lambda>it. decode_utf8 (item_value it)) items) ops, q')"
proof (induction ops arbitrary: q H T items)
  case Nil
  then show ?case by simp
next
  case (Cons op ops)
  note inv = Cons.prems(1) and ini = Cons.prems(2) and k = Cons.prems(3)
  from inv have bounds: "H \<le> T" "T \<le> H + 2 ^ k" "T \<le> 2 ^ 32" "length items = T - H"
    by (auto simp: ring_inv_def)
  from Cons.prems(4) have nowrap: "T < 2 ^ 32" and rest: "T + length ops \<le> 2 ^ 32"
    "Suc T + length ops \<le> 2 ^ 32" by auto
  show ?case
  proof (cases op)
    case (Enqueue d m)
    show ?thesis
    proof (cases "py_str md d")
      case (Inl e)
      from enqueue_raises[OF ini Inl, of m] have s: "enqueue md q d m = Some (Inl e, q)" .
      from Cons.IH[OF inv ini k rest(1)] s Enqueue Inl show ?thesis by auto
    next
      case (Inr b)
      show ?thesis
      proof (cases m)
        case False
        from enqueue_nomem[OF inv ini Inr] obtain q1 where
          s: "enqueue md q d False = Some (Inr False, q1)" and i1: "ring_inv k q1 H T items"
          and ini1: "q_initialized q1" by blast
        from Cons.IH[OF i1 ini1 k rest(1)] s Enqueue False Inr show ?thesis by auto
      next
        case True
        show ?thesis
        proof (cases "T < H + 2 ^ k")
          case room: True
          from enqueue_ok[OF inv ini room nowrap Inr] obtain q1 it where
            s: "enqueue md q d True = Some (Inr True, q1)"
            and it: "decode_utf8 (item_value it) = stored_form md d"
            and i1: "ring_inv k q1 H (Suc T) (items @ [it])" and ini1: "q_initialized q1"
            by blast
          from room bounds have "length items < 2 ^ k" by simp
          with Cons.IH[OF i1 ini1 k rest(2)] s it Enqueue True Inr show ?thesis by auto
        next
          case False
          with bounds have full: "T = H + 2 ^ k" by simp
          from enqueue_full[OF inv ini full nowrap k Inr] obtain q1 where
            s: "enqueue md q d True = Some (Inr False, q1)" and i1: "ring_inv k q1 H T items"
            and ini1: "q_initialized q1" by blast
          from full bounds have "\<not> length items < 2 ^ k" by simp
          with Cons.IH[OF i1 ini1 k rest(1)] s Enqueue True Inr show ?thesis by auto
        qed
      qed
    qed
  next
    case Dequeue
    show ?thesis
    proof (cases "H < T")
      case True
      from dequeue_ok[OF inv ini True] obtain q1 where
        s: "dequeue q = Some (decode_utf8 (item_value (hd items)), q1)"
        and i1: "ring_inv k q1 (Suc H) T (tl items)" and ini1: "q_initialized q1" by blast
      from True bounds obtain it rest where items: "items = it # rest"
        by (cases items) auto
      from Cons.IH[OF i1 ini1 k rest(1)] s Dequeue items show ?thesis by auto
    next
      case False
      with bounds have e: "H = T" by simp
      from e nowrap have "H < 2 ^ 32" by simp
      from dequeue_empty[OF inv e this] have s: "dequeue q = Some (None, q)" .
      from e bounds have "items = []" by simp
      with Cons.IH[OF inv ini k rest(1)] s Dequeue show ?thesis by auto
    qed
  qed
qed

lemma stored_buffer_short:
  assumes "length s < 2 ^ 32"
  shows "stored_buffer s = s"
proof -
  have "unat (word_of_nat (length s) :: u32) = length s"
    using assms by (simp add: unat_of_nat)
  then show ?thesis by (simp add: stored_buffer_def)
qed

lemma stored_form_str:
  assumes "utf8_valid s" "length s < 2 ^ 32"
  shows "stored_form md (PyStr s) = Some s"
  using assms by (simp add: stored_form_def stored_buffer_short decode_utf8_def)

lemma str_nat_length: "10 ^ k \<le> n \<Longrightarrow> k < length (str_nat n)"
proof (induction k arbitrary: n)
  case 0
  show ?case by (subst str_nat.simps) simp
next
  case (Suc k)
  then have "10 ^ k \<le> n div 10" by simp
  from Suc.IH[OF this] have l: "k < length (str_nat (n div 10))" .
  have "(10::nat) \<le> 10 ^ Suc k" by (rule self_le_power) simp_all
  from this Suc.prems have "10 \<le> n" by (rule order_trans)
  then have "\<not> n < 10" by simp
  with l show ?case by (subst str_nat.simps) simp
qed

text \<open>
  Two calls on which the queue does not give back the string form of the value: an integer
  of more decimal digits than the limit is not accepted, \<open>enqueue\<close> raises
  \<open>ValueError\<close>; and of a string of \<open>2 ^ 32 + 1\<close> bytes that begins with a two-byte
  character the queue keeps one byte, which does not decode, so that \<open>dequeue\<close> returns
  \<open>None\<close> for it.
\<close>

lemma big_int_raises:
  assumes "0 < md" "10 ^ md \<le> i"
  shows "py_str md (PyInt i) = Inl ValueError"
proof -
  have "(0::int) \<le> 10 ^ md" by simp
  from this assms(2) have i: "0 \<le> i" by (rule order_trans)
  from assms(2) have "int (10 ^ md) \<le> i" by simp
  with i have "10 ^ md \<le> nat i" by (simp add: le_nat_iff)
  from str_nat_length[OF this] i have "md < length (str_nat (nat \<bar>i\<bar>))" by simp
  with assms(1) show ?thesis by simp
qed

lemma truncated_character_lost:
  assumes "length r = 2 ^ 32 - 1"
  shows "stored_form md (PyStr (CHR 0xC3 # CHR 0xA9 # r)) = None"
proof -
  let ?s = "CHR 0xC3 # CHR 0xA9 # r"
  from assms have "length ?s = 2 ^ 32 + 1" by simp
  then have "(word_of_nat (length ?s) :: u32) = 1" by (simp only:) simp
  then have "stored_buffer ?s = [CHR 0xC3]"
    unfolding stored_buffer_def by (simp only:) simp
  then show ?thesis by (simp add: stored_form_def decode_utf8_def)
qed

lemma prefix_same_length: "prefix xs ys \<Longrightarrow> length xs = length ys \<Longrightarrow> xs = ys"
  by (auto simp: prefix_def)

lemma prefix_present_all:
  assumes "prefix xs (present ys)" "length xs = length ys"
  shows "map Some xs = ys"
proof -
  from assms(1) have "length xs \<le> length (present ys)" by (rule prefix_length_le)
  with assms(2) length_present[of ys] have l: "length (present ys) = length ys" by simp
  with assms have "xs = present ys" by (intro prefix_same_length) simp_all
  with present_all[OF l] show ?thesis by simp
qed

text \<open>
  Claim C2 as stated (the values returned by successful dequeues equal the enqueued
  values, value for value) fails: the queue stores \<open>str(data)\<close>, so the integer 5 is
  enqueued and the string \<open>''5''\<close> is dequeued.
\<close>

theorem fifo_values_counterexample:
  "map_option fst (run_ops 4300 (projr (LockFreeQueue_cinit True 2))
                     [Enqueue (PyInt 5) True, Dequeue])
     = Some [Enqueued True, Dequeued (Some ''5'')]
   \<and> pushed [Enqueue (PyInt 5) True, Dequeue] [Enqueued True, Dequeued (Some ''5'')]
       = [PyInt 5]
   \<and> map PyStr (popped [Enqueued True, Dequeued (Some ''5'')]) = [PyStr ''5'']
   \<and> [PyStr ''5''] \<noteq> [PyInt 5]"
proof -
  have u: "[0..<2] = [0, 1]" by (simp add: upt_rec)
  show ?thesis
    by (simp add: LockFreeQueue_cinit_def initialize_nodes_def u enqueue_def dequeue_def
        try_enqueue_fast_closed try_dequeue_fast_closed enq_slot_def deq_slot_def
        Let_def str_nat.simps decode_utf8_def)
qed

text \<open>
  Claim C2, amended: on a freshly constructed queue, for calls of \<open>enqueue\<close> and
  \<open>dequeue\<close> that do not overlap (each call returns before the next one begins, as when
  the producer and the consumer take turns; executions in which the two ring functions
  run at the same time are not covered), with \<open>sys.get_int_max_str_digits()\<close> any
  \<open>md\<close>:

  \<^item> for every run whose calls return or raise, the values returned by successful dequeues
    are, in order, a prefix of the stored forms of the values accepted by successful
    enqueues, those left out whose kept bytes do not decode; once as many dequeues as
    enqueues have succeeded, they are the stored forms of all accepted values, each of
    which decodes;
  \<^item> for a requested capacity other than 1 and at most \<open>2 ^ 32\<close> calls, every call
    returns or raises, and the results are those of the bounded FIFO \<open>fifo_run\<close> of the
    queue's capacity;
  \<^item> a string of well-formed UTF-8 shorter than \<open>2 ^ 32\<close> bytes is its own stored form;
  \<^item> a value whose \<open>str(data).encode('utf-8')\<close> raises makes \<open>enqueue\<close> raise that
    exception, and the queue stays as it was.
\<close>

theorem fifo_order:
  assumes "LockFreeQueue_cinit True c = Inr q0"
  shows "(\<forall>ops rs q. run_ops md q0 ops = Some (rs, q) \<longrightarrow>
            prefix (popped rs) (present (map (stored_form md) (pushed ops rs))) \<and>
            (length (popped rs) = length (pushed ops rs) \<longrightarrow>
               map Some (popped rs) = map (stored_form md) (pushed ops rs)))
       \<and> (\<forall>ops. c \<noteq> 1 \<and> length ops \<le> 2 ^ 32 \<longrightarrow>
            (\<exists>q. run_ops md q0 ops = Some (fifo_run md (unat (q_capacity q0)) [] ops, q)))
       \<and> (\<forall>s. utf8_valid s \<and> length s < 2 ^ 32 \<longrightarrow> stored_form md (PyStr s) = Some s)
       \<and> (\<forall>q d m e. q_initialized q \<and> py_str md d = Inl e \<longrightarrow>
            enqueue md q d m = Some (Inl e, q))"
proof -
  from cinit_ring_inv[OF assms] obtain k where inv: "ring_inv k q0 0 0 []"
    and ini: "q_initialized q0"
    and cap: "q_capacity q0 = (if is_power_of_two c then c else DEFAULT_QUEUE_SIZE)"
    by blast
  from inv have k: "k < 32" and capk: "q_capacity q0 = 2 ^ k" by (auto simp: ring_inv_def)
  have "(2::u32) ^ k = word_of_nat (2 ^ k)" by simp
  moreover have "(2::nat) ^ k < 2 ^ 32" by (rule pow2k_bound[OF k])
  ultimately have ucap: "unat (q_capacity q0) = 2 ^ k"
    unfolding capk by (simp only: unat_of_nat) simp
  have a: "prefix (popped rs) (present (map (stored_form md) (pushed ops rs)))"
    if "run_ops md q0 ops = Some (rs, q)" for ops rs q
    using run_prefix[OF inv ini that] by simp
  have b: "\<exists>q. run_ops md q0 ops = Some (fifo_run md (unat (q_capacity q0)) [] ops, q)"
    if "c \<noteq> 1" "length ops \<le> 2 ^ 32" for ops
  proof -
    have "0 < k"
    proof (rule ccontr)
      assume "\<not> 0 < k"
      with capk have "q_capacity q0 = 1" by simp
      with cap that(1) show False
        by (auto simp: DEFAULT_QUEUE_SIZE_def split: if_splits)
    qed
    from run_refines[OF inv ini this, of ops md] that(2) show ?thesis
      by (simp add: ucap)
  qed
  have a': "map Some (popped rs) = map (stored_form md) (pushed ops rs)"
    if "run_ops md q0 ops = Some (rs, q)" "length (popped rs) = length (pushed ops rs)"
    for ops rs q
    using a[OF that(1)] that(2) by (intro prefix_present_all) simp_all
  have d: "enqueue md q d m = Some (Inl e, q)"
    if "q_initialized q" "py_str md d = Inl e" for q d m e
    using that by (rule enqueue_raises)
  from a a' b d stored_form_str[of _ md] show ?thesis
    by blast
qed

theorem fifo_order_witness:
  "\<exists>q0 q. LockFreeQueue_cinit True 2 = Inr q0 \<and>
     run_ops 4300 q0
         [Enqueue (PyStr ''ab'') True, Enqueue (PyInt 5) True, Dequeue, Dequeue] =
       Some ([Enqueued True, Enqueued True, Dequeued (Some ''ab''), Dequeued (Some ''5'')], q) \<and>
     map Some
         (popped [Enqueued True, Enqueued True, Dequeued (Some ''ab''), Dequeued (Some ''5'')]) =
       map (stored_form 4300) (pushed
         [Enqueue (PyStr ''ab'') True, Enqueue (PyInt 5) True, Dequeue, Dequeue]
         [Enqueued True, Enqueued True, Dequeued (Some ''ab''), Dequeued (Some ''5'')]) \<and>
     stored_form 4300 (PyStr ''ab'') = Some ''ab'' \<and>
     py_str 4300 (PyObject (Inl OtherException)) = Inl OtherException \<and>
     enqueue 4300 q0 (PyObject (Inl OtherException)) True = Some (Inl OtherException, q0)"
proof -
  let ?ops = "[Enqueue (PyStr ''ab'') True, Enqueue (PyInt 5) True, Dequeue, Dequeue]"
  let ?rs = "[Enqueued True, Enqueued True, Dequeued (Some ''ab''), Dequeued (Some ''5'')]"
  obtain q0 where c: "LockFreeQueue_cinit True 2 = Inr q0"
    and cap: "q_capacity q0 = 2" and ini: "q_initialized q0"
    by (simp add: LockFreeQueue_cinit_def)
  note f = fifo_order[OF c, of 4300]
  have v: "utf8_valid ''ab''" by simp
  from f v have sa: "stored_form 4300 (PyStr ''ab'') = Some ''ab''" by simp
  have sb: "stored_form 4300 (PyInt 5) = Some ''5''"
    by (simp add: stored_form_def stored_buffer_def decode_utf8_def str_nat.simps)
  have "fifo_run 4300 (unat (q_capacity q0)) [] ?ops = ?rs"
    by (simp add: cap sa sb str_nat.simps)
  moreover have
    "\<exists>q. run_ops 4300 q0 ?ops = Some (fifo_run 4300 (unat (q_capacity q0)) [] ?ops, q)"
    using f[THEN conjunct2, THEN conjunct1, THEN spec, of ?ops]
    by (simp del: run_ops.simps fifo_run.simps)
  ultimately obtain q where r: "run_ops 4300 q0 ?ops = Some (?rs, q)" by auto
  from f r have "length (popped ?rs) = length (pushed ?ops ?rs) \<longrightarrow>
      map Some (popped ?rs) = map (stored_form 4300) (pushed ?ops ?rs)" by blast
  moreover have "length (popped ?rs) = length (pushed ?ops ?rs)" by simp
  ultimately have p: "map Some (popped ?rs) = map (stored_form 4300) (pushed ?ops ?rs)"
    by (rule mp)
  have e: "py_str 4300 (PyObject (Inl OtherException)) = Inl OtherException" by simp
  from f ini e
  have "enqueue 4300 q0 (PyObject (Inl OtherException)) True = Some (Inl OtherException, q0)"
    by blast
  with c r p sa e show ?thesis by blast
qed

subsection \<open>Lock-free queue: batches\<close>

lemma push_all_ok:
  "ring_inv k q H T items \<Longrightarrow> T + length ds \<le> H + 2 ^ k \<Longrightarrow> T + length ds \<le> 2 ^ 32 \<Longrightarrow>
     \<exists>q'. push_all q ds = Some (replicate (length ds) True, q') \<and>
          ring_inv k q' H (T + length ds) (items @ ds)"
proof (induction ds arbitrary: q T items)
  case Nil
  then show ?case by simp
next
  case (Cons d ds)
  from Cons.prems have room: "T < H + 2 ^ k" and nowrap: "T < 2 ^ 32" by auto
  from ring_inv_enqueue_ok[OF Cons.prems(1) room nowrap, of "fst d" "snd d"]
  obtain q1 where s: "try_enqueue_fast q (fst d) (snd d) = Some (True, q1)"
    and i1: "ring_inv k q1 H (Suc T) (items @ [d])" by auto
  from Cons.IH[OF i1] Cons.prems(2,3) obtain q' where
    "push_all q1 ds = Some (replicate (length ds) True, q')"
    "ring_inv k q' H (Suc T + length ds) ((items @ [d]) @ ds)" by auto
  with s show ?case by auto
qed

lemma pop_n_ok:
  "ring_inv k q H T items \<Longrightarrow> n \<le> T - H \<Longrightarrow>
     \<exists>q'. pop_n q n = Some (map (\<lambda>d. (True, Some (fst d), snd d)) (take n items), q') \<and>
          ring_inv k q' (H + n) T (drop n items)"
proof (induction n arbitrary: q H items)
  case 0
  then show ?case by simp
next
  case (Suc n)
  from Suc.prems have ne: "H < T" by simp
  from Suc.prems(1) have "length items = T - H" by (simp add: ring_inv_def)
  with ne obtain it rest where items: "items = it # rest" by (cases items) auto
  from ring_inv_dequeue_ok[OF Suc.prems(1) ne] items
  obtain q1 where s: "try_dequeue_fast q = Some (True, Some (fst it), snd it, q1)"
    and i1: "ring_inv k q1 (Suc H) T rest" by auto
  from Suc.prems(2) have "n \<le> T - Suc H" by arith
  from Suc.IH[OF i1 this] obtain q' where
    "pop_n q1 n = Some (map (\<lambda>d. (True, Some (fst d), snd d)) (take n rest), q')"
    "ring_inv k q' (Suc H + n) T (drop n rest)" by auto
  with s items show ?case by auto
qed

subsection \<open>Lock-free queue: the full queue of capacity 8\<close>

text \<open>
  Claim C8: on a queue constructed with capacity 8 and used by one thread, for any nine
  buffers: the first eight \<open>_try_enqueue_fast\<close> calls return true, the ninth returns
  false and leaves the queue as it was; eight \<open>_try_dequeue_fast\<close> calls then return the
  first eight buffers in insertion order, and a ninth returns false (\<open>dequeue\<close> returns
  \<open>None\<close>), again leaving the queue as it was. Through \<open>enqueue\<close> and \<open>dequeue\<close>,
  nine calls of the one followed by nine calls of the other give, for any nine values, the
  results of the bounded FIFO of capacity 8; for any nine values that
  \<open>str(data).encode('utf-8')\<close> serializes without raising these are the same results as
  on the ring, and the values come back in their stored forms.
\<close>

theorem queue_full_scenario:
  "\<exists>q0 q8 q16.
     LockFreeQueue_cinit True 8 = Inr q0 \<and>
     push_all q0 [d1, d2, d3, d4, d5, d6, d7, d8] = Some (replicate 8 True, q8) \<and>
     try_enqueue_fast q8 (fst d9) (snd d9) = Some (False, q8) \<and>
     pop_n q8 8 =
       Some (map (\<lambda>d. (True, Some (fst d), snd d)) [d1, d2, d3, d4, d5, d6, d7, d8], q16) \<and>
     try_dequeue_fast q16 = Some (False, None, 0, q16) \<and>
     dequeue q16 = Some (None, q16) \<and>
     (\<exists>q. run_ops md q0 (map (\<lambda>v. Enqueue v True) [v1, v2, v3, v4, v5, v6, v7, v8, v9] @
                 replicate 9 Dequeue) =
       Some (fifo_run md 8 []
               (map (\<lambda>v. Enqueue v True) [v1, v2, v3, v4, v5, v6, v7, v8, v9] @
                replicate 9 Dequeue), q)) \<and>
     ((\<forall>v \<in> set [v1, v2, v3, v4, v5, v6, v7, v8, v9]. \<exists>b. py_str md v = Inr b) \<longrightarrow>
      (\<exists>q. run_ops md q0 (map (\<lambda>v. Enqueue v True) [v1, v2, v3, v4, v5, v6, v7, v8, v9] @
                 replicate 9 Dequeue) =
       Some (replicate 8 (Enqueued True) @ [Enqueued False] @
             map (\<lambda>v. Dequeued (stored_form md v)) [v1, v2, v3, v4, v5, v6, v7, v8] @
             [Dequeued None], q)))"
proof -
  let ?ds = "[d1, d2, d3, d4, d5, d6, d7, d8]"
  let ?ops = "map (\<lambda>v. Enqueue v True) [v1, v2, v3, v4, v5, v6, v7, v8, v9] @
              replicate 9 Dequeue"
  obtain q0 where c: "LockFreeQueue_cinit True 8 = Inr q0"
    by (simp add: LockFreeQueue_cinit_def)
  have "(8::u32) = 2 ^ 3" by simp
  then have p8: "is_power_of_two 8"
    unfolding is_power_of_two_iff by (intro exI[of _ 3]) simp
  from cinit_ring_inv[OF c] obtain k where inv0: "ring_inv k q0 0 0 []"
    and ini: "q_initialized q0" and cap: "q_capacity q0 = 8"
    by (auto simp: p8)
  from inv0 cap have k: "k < 32" "(2::u32) ^ k = 2 ^ 3" by (auto simp: ring_inv_def)
  have "k = 3"
  proof -
    have "(2::u32) ^ k = word_of_nat (2 ^ k)" by simp
    moreover have "(2::nat) ^ k < 2 ^ 32" by (rule pow2k_bound[OF k(1)])
    ultimately have "unat ((2::u32) ^ k) = 2 ^ k"
      by (simp only: unat_of_nat) simp
    moreover have "unat ((2::u32) ^ k) = 8" by (simp only: k(2)) simp
    ultimately have "(2::nat) ^ k = 2 ^ 3" by simp
    then show ?thesis by (simp only: power_inject_exp)
  qed
  with inv0 have inv: "ring_inv 3 q0 0 0 []" by simp
  have l: "length ?ds = 8" by simp
  have "\<exists>q8. push_all q0 ?ds = Some (replicate 8 True, q8) \<and> ring_inv 3 q8 0 8 ?ds"
    using push_all_ok[OF inv, of ?ds] unfolding l by (simp del: push_all.simps)
  then obtain q8 where
    p: "push_all q0 ?ds = Some (replicate 8 True, q8)" and i8: "ring_inv 3 q8 0 8 ?ds"
    by blast
  have full: "try_enqueue_fast q8 (fst d9) (snd d9) = Some (False, q8)"
    by (rule ring_inv_enqueue_full[OF i8]) simp_all
  have "\<exists>q16. pop_n q8 8 = Some (map (\<lambda>d. (True, Some (fst d), snd d)) ?ds, q16) \<and>
      ring_inv 3 q16 8 8 []"
    using pop_n_ok[OF i8, of 8] by (simp del: pop_n.simps)
  then obtain q16 where
    o: "pop_n q8 8 = Some (map (\<lambda>d. (True, Some (fst d), snd d)) ?ds, q16)"
    and i16: "ring_inv 3 q16 8 8 []" by blast
  have e: "try_dequeue_fast q16 = Some (False, None, 0, q16)"
    by (rule ring_inv_dequeue_empty[OF i16]) simp_all
  have e': "dequeue q16 = Some (None, q16)"
    by (rule dequeue_empty[OF i16]) simp_all
  have "\<exists>q. run_ops md q0 ?ops =
      Some (fifo_run md (2 ^ 3) (map (\<lambda>it. decode_utf8 (item_value it)) []) ?ops, q)"
    by (rule run_refines[OF inv ini]) simp_all
  then have gen: "\<exists>q. run_ops md q0 ?ops = Some (fifo_run md 8 [] ?ops, q)"
    by (simp del: run_ops.simps fifo_run.simps)
  have run: "\<exists>q. run_ops md q0 ?ops =
      Some (replicate 8 (Enqueued True) @ [Enqueued False] @
             map (\<lambda>v. Dequeued (stored_form md v)) [v1, v2, v3, v4, v5, v6, v7, v8] @
             [Dequeued None], q)"
    if enc: "\<forall>v \<in> set [v1, v2, v3, v4, v5, v6, v7, v8, v9]. \<exists>b. py_str md v = Inr b"
  proof -
    have "\<exists>q. run_ops md q0 ?ops =
        Some (fifo_run md (2 ^ 3) (map (\<lambda>it. decode_utf8 (item_value it)) []) ?ops, q)"
      by (rule run_refines[OF inv ini]) simp_all
    then obtain q where
      "run_ops md q0 ?ops =
        Some (fifo_run md (2 ^ 3) (map (\<lambda>it. decode_utf8 (item_value it)) []) ?ops, q)"
      by blast
    moreover from enc obtain b1 b2 b3 b4 b5 b6 b7 b8 b9 where
      "py_str md v1 = Inr b1" "py_str md v2 = Inr b2" "py_str md v3 = Inr b3"
      "py_str md v4 = Inr b4" "py_str md v5 = Inr b5" "py_str md v6 = Inr b6"
      "py_str md v7 = Inr b7" "py_str md v8 = Inr b8" "py_str md v9 = Inr b9"
      by auto
    then have "fifo_run md (2 ^ 3) (map (\<lambda>it. decode_utf8 (item_value it)) []) ?ops =
        replicate 8 (Enqueued True) @ [Enqueued False] @
               map (\<lambda>v. Dequeued (stored_form md v)) [v1, v2, v3, v4, v5, v6, v7, v8] @
               [Dequeued None]"
      by (simp add: numeral_eq_Suc)
    ultimately show ?thesis by (simp only:) blast
  qed
  from c p full o e e' gen run show ?thesis by blast
qed

theorem queue_full_scenario_witness:
  "\<exists>q0 q8 q16 q.
     LockFreeQueue_cinit True 8 = Inr q0 \<and>
     push_all q0 [(''a'', 1), (''b'', 1), (''c'', 1), (''d'', 1), (''e'', 1), (''f'', 1),
                  (''g'', 1), (''h'', 1)] = Some (replicate 8 True, q8) \<and>
     try_enqueue_fast q8 (fst (''i'', 1 :: u32)) (snd (''i'', 1 :: u32)) = Some (False, q8) \<and>
     pop_n q8 8 =
       Some (map (\<lambda>d. (True, Some (fst d), snd d))
         [(''a'', 1), (''b'', 1), (''c'', 1), (''d'', 1), (''e'', 1), (''f'', 1),
          (''g'', 1), (''h'', 1)], q16) \<and>
     try_dequeue_fast q16 = Some (False, None, 0, q16) \<and>
     dequeue q16 = Some (None, q16) \<and>
     run_ops 4300 q0 (map (\<lambda>v. Enqueue v True)
                  [PyInt 1, PyInt 2, PyInt 3, PyInt 4, PyInt 5, PyInt 6, PyInt 7, PyInt 8,
                   PyInt 9] @ replicate 9 Dequeue) =
       Some (replicate 8 (Enqueued True) @ [Enqueued False] @
             map (\<lambda>v. Dequeued (stored_form 4300 v))
               [PyInt 1, PyInt 2, PyInt 3, PyInt 4, PyInt 5, PyInt 6, PyInt 7, PyInt 8] @
             [Dequeued None], q) \<and>
     stored_form 4300 (PyInt 1) = Some ''1'' \<and> stored_form 4300 (PyInt 8) = Some ''8''"
proof -
  have enc: "\<forall>v \<in> set [PyInt 1, PyInt 2, PyInt 3, PyInt 4, PyInt 5, PyInt 6, PyInt 7,
      PyInt 8, PyInt 9]. \<exists>b. py_str 4300 v = Inr b"
    by (simp add: str_nat.simps)
  have sf: "stored_form 4300 (PyInt 1) = Some ''1''" "stored_form 4300 (PyInt 8) = Some ''8''"
    by (simp_all add: stored_form_def stored_buffer_def decode_utf8_def str_nat.simps)
  from queue_full_scenario[where md = 4300 and ?v1.0 = "PyInt 1" and ?v2.0 = "PyInt 2"
      and ?v3.0 = "PyInt 3" and ?v4.0 = "PyInt 4" and ?v5.0 = "PyInt 5" and ?v6.0 = "PyInt 6"
      and ?v7.0 = "PyInt 7" and ?v8.0 = "PyInt 8" and ?v9.0 = "PyInt 9"
      and ?d1.0 = "(''a'', 1)" and ?d2.0 = "(''b'', 1)" and ?d3.0 = "(''c'', 1)"
      and ?d4.0 = "(''d'', 1)" and ?d5.0 = "(''e'', 1)" and ?d6.0 = "(''f'', 1)"
      and ?d7.0 = "(''g'', 1)" and ?d8.0 = "(''h'', 1)" and ?d9.0 = "(''i'', 1)"]
  obtain q0 q8 q16 where
    a: "LockFreeQueue_cinit True 8 = Inr q0"
    "push_all q0 [(''a'', 1), (''b'', 1), (''c'', 1), (''d'', 1), (''e'', 1), (''f'', 1),
                  (''g'', 1), (''h'', 1)] = Some (replicate 8 True, q8)"
    "try_enqueue_fast q8 (fst (''i'', 1 :: u32)) (snd (''i'', 1 :: u32)) = Some (False, q8)"
    "pop_n q8 8 =
       Some (map (\<lambda>d. (True, Some (fst d), snd d))
         [(''a'', 1), (''b'', 1), (''c'', 1), (''d'', 1), (''e'', 1), (''f'', 1),
          (''g'', 1), (''h'', 1)], q16)"
    "try_dequeue_fast q16 = Some (False, None, 0, q16)"
    "dequeue q16 = Some (None, q16)"
    and b: "(\<forall>v \<in> set [PyInt 1, PyInt 2, PyInt 3, PyInt 4, PyInt 5, PyInt 6, PyInt 7,
      PyInt 8, PyInt 9]. \<exists>b. py_str 4300 v = Inr b) \<longrightarrow>
      (\<exists>q. run_ops 4300 q0 (map (\<lambda>v. Enqueue v True)
                  [PyInt 1, PyInt 2, PyInt 3, PyInt 4, PyInt 5, PyInt 6, PyInt 7, PyInt 8,
                   PyInt 9] @ replicate 9 Dequeue) =
       Some (replicate 8 (Enqueued True) @ [Enqueued False] @
             map (\<lambda>v. Dequeued (stored_form 4300 v))
               [PyInt 1, PyInt 2, PyInt 3, PyInt 4, PyInt 5, PyInt 6, PyInt 7, PyInt 8] @
             [Dequeued None], q))"
    by blast
  from b enc obtain q where "run_ops 4300 q0 (map (\<lambda>v. Enqueue v True)
                  [PyInt 1, PyInt 2, PyInt 3, PyInt 4, PyInt 5, PyInt 6, PyInt 7, PyInt 8,
                   PyInt 9] @ replicate 9 Dequeue) =
       Some (replicate 8 (Enqueued True) @ [Enqueued False] @
             map (\<lambda>v. Dequeued (stored_form 4300 v))
               [PyInt 1, PyInt 2, PyInt 3, PyInt 4, PyInt 5, PyInt 6, PyInt 7, PyInt 8] @
             [Dequeued None], q)"
    by blast
  with a sf show ?thesis by blast
qed

subsection \<open>Packet parser: byte order\<close>

lemma ff16: "(0xFF :: u16) = mask 8" by (simp add: mask_eq_exp_minus_1)

lemma bit_u8_bound: "bit (w :: u8) m \<Longrightarrow> m < 8"
  using bit_imp_le_length[of w m] by simp

lemma swap16:
  fixes a b :: u8
  shows "push_bit 8 (((ucast a :: u16) OR push_bit 8 (ucast b)) AND mask 8) OR
         (drop_bit 8 ((ucast a :: u16) OR push_bit 8 (ucast b)) AND mask 8)
         = push_bit 8 (ucast a) OR ucast b"
proof (rule bit_word_eqI)
  fix n assume "n < LENGTH(16)"
  have a: "\<not> bit a (8 + n)" using bit_u8_bound[of a "8 + n"] by auto
  have b: "bit b n \<Longrightarrow> n < 8" by (rule bit_u8_bound)
  have c: "bit a (n - 8) \<Longrightarrow> n - 8 < 8" by (rule bit_u8_bound)
  show "bit (push_bit 8 (((ucast a :: u16) OR push_bit 8 (ucast b)) AND mask 8) OR
         (drop_bit 8 ((ucast a :: u16) OR push_bit 8 (ucast b)) AND mask 8)) n
        = bit (push_bit 8 (ucast a) OR (ucast b :: u16)) n"
    using a b c by (simp add: bit_simps) blast
qed

lemma ntohs_load_u16:
  "ntohs (load_u16 d off) = push_bit 8 (ucast (d ! off)) OR ucast (d ! (off + 1))"
  unfolding ntohs_def load_u16_def ff16 by (rule swap16)



subsection \<open>Packet parser: rejected frames\<close>

lemma packet_len_eq:
  assumes "length frame < 2 ^ 31"
  shows "sint (word_of_nat (length frame) :: 32 word) = int (length frame)"
proof -
  have "sint (word_of_nat (length frame) :: 32 word) = signed_take_bit 31 (int (length frame))"
    by (simp add: signed_of_nat)
  also have "\<dots> = int (length frame)"
    using assms by (intro signed_take_bit_int_eq_self) auto
  finally show ?thesis .
qed

lemma be16_load:
  assumes "i + 1 < length frame"
  shows "be16 frame i = ntohs (load_u16 frame i)"
  using assms by (simp add: be16_def byte_at_def ntohs_load_u16)

lemma port_in_set: "port_in p ps \<longleftrightarrow> p \<in> set ps"
  by (induction ps) auto

lemma is_exchange_port_member:
  "is_exchange_port p \<longleftrightarrow> p \<in> set configured_exchange_ports"
  by (auto simp: is_exchange_port_def configured_exchange_ports_def port_in_set)

lemma get_exchange_id_zero: "get_exchange_id p = 0 \<longleftrightarrow> \<not> is_exchange_port p"
  by (simp add: get_exchange_id_def is_exchange_port_def)

lemma classify_trading:
  "v_is_trading_packet (classify_l4 data n ihl l4len) \<longleftrightarrow>
     is_exchange_port (ntohs (load_u16 data (nat (14 + ihl)))) \<or>
     is_exchange_port (ntohs (load_u16 data (nat (14 + ihl) + 2)))"
  by (simp add: classify_l4_def Let_def)

lemma finish_parse_none:
  "fst (finish_parse self data n vars) = None \<longleftrightarrow>
     (case vars of None \<Rightarrow> True | Some v \<Rightarrow> \<not> v_is_trading_packet v)"
  by (simp add: finish_parse_def Let_def split: option.splits)

text \<open>
  Claim C3: for every frame (shorter than \<open>2 ^ 31\<close> bytes, so that the C \<open>int\<close>
  \<open>packet_len\<close> holds its length), \<open>parse_packet_fast\<close> returns \<open>None\<close> if and only if
  the frame is too short, is not IPv4, has an IHL below 5, has a truncated L4 header, or
  none of its derived L4 ports is a configured exchange port; in every other case it
  returns a record. A frame whose L4 protocol is neither TCP nor UDP has no derived ports
  and falls under the last reason.
\<close>

theorem parse_none_iff:
  assumes len: "length frame < 2 ^ 31"
  shows "fst (parse_packet_fast self frame) = None \<longleftrightarrow> spec_rejects frame"
proof -
  let ?n = "length frame"
  let ?ihl = "unat (frame ! 14 AND 0x0F)"
  note pl = packet_len_eq[OF len]
  have ui: "uint (frame ! 14 AND 0x0F) = int ?ihl" by simp
  show ?thesis
  proof (cases "?n < 34")
    case True
    then have "frame_too_short frame" by (simp add: frame_too_short_def)
    then have "spec_rejects frame" by (simp add: spec_rejects_def)
    moreover have "fst (parse_packet_fast self frame) = None"
      using True by (simp add: parse_packet_fast_def pl Let_def ui del: of_nat_unat)
    ultimately show ?thesis by simp
  next
    case False
    then have n34: "34 \<le> ?n" by simp
    then have b14: "byte_at frame 14 = frame ! 14" and b23: "byte_at frame 23 = frame ! 23"
      by (simp_all add: byte_at_def)
    have eth: "be16 frame 12 = ntohs (load_u16 frame 12)"
      using n34 by (intro be16_load) simp
    have ihlw: "ihl_words frame = ?ihl" by (simp add: ihl_words_def b14)
    show ?thesis
    proof (cases "ntohs (load_u16 frame 12) \<noteq> 0x0800 \<or> drop_bit 4 (frame ! 14) \<noteq> 4")
      case True
      then have "not_ipv4 frame" by (simp add: not_ipv4_def eth b14)
      then have "spec_rejects frame" by (simp add: spec_rejects_def)
      moreover have "fst (parse_packet_fast self frame) = None"
        using True by (auto simp: parse_packet_fast_def pl Let_def ui simp del: of_nat_unat)
      ultimately show ?thesis by simp
    next
      case ip: False
      then have nip: "\<not> not_ipv4 frame" by (simp add: not_ipv4_def eth b14)
      show ?thesis
      proof (cases "?ihl < 5 \<or> ?n < 14 + 4 * ?ihl")
        case True
        then have "ihl_below_5 frame \<or> frame_too_short frame"
          by (auto simp: ihl_below_5_def frame_too_short_def ihlw)
        then have "spec_rejects frame" by (auto simp: spec_rejects_def)
        moreover have "fst (parse_packet_fast self frame) = None"
          using True ip n34 by (auto simp: parse_packet_fast_def pl Let_def ui simp del: of_nat_unat)
        ultimately show ?thesis by simp
      next
        case hdr: False
        then have ok: "\<not> frame_too_short frame" "\<not> ihl_below_5 frame"
          using n34 by (auto simp: ihl_below_5_def frame_too_short_def ihlw)
        have l4: "nat (14 + int ?ihl * 4) = 14 + 4 * ?ihl" by linarith
        have guard: "\<not> (int ?ihl * 4 < 20 \<or> int ?n < 14 + int ?ihl * 4)"
          using hdr by linarith
        consider (tcp) "frame ! 23 = 6" | (udp) "frame ! 23 = 17"
          | (other) "frame ! 23 \<noteq> 6" "frame ! 23 \<noteq> 17" by blast
        then show ?thesis
        proof cases
          case other
          then have "derived_ports frame = []" by (simp add: derived_ports_def b23)
          then have "spec_rejects frame" by (simp add: spec_rejects_def no_port_matches_def)
          moreover have "fst (parse_packet_fast self frame) = None"
            using other ip n34 guard
            by (simp add: parse_packet_fast_def pl Let_def ui finish_parse_none del: of_nat_unat)
          ultimately show ?thesis by simp
        next
          case tcp
          show ?thesis
          proof (cases "?n < 14 + 4 * ?ihl + 20")
            case True
            then have "l4_header_truncated frame"
              by (simp add: l4_header_truncated_def b23 tcp ihlw)
            then have "spec_rejects frame" by (simp add: spec_rejects_def)
            moreover have "int ?n < 14 + int ?ihl * 4 + 20" using True by linarith
            then have "fst (parse_packet_fast self frame) = None"
              using tcp ip n34 guard
              by (simp add: parse_packet_fast_def pl Let_def ui del: of_nat_unat)
            ultimately show ?thesis by simp
          next
            case False
            then have nt: "\<not> l4_header_truncated frame"
              by (simp add: l4_header_truncated_def b23 tcp ihlw)
            have p1: "be16 frame (14 + 4 * ?ihl) = ntohs (load_u16 frame (14 + 4 * ?ihl))"
              using False by (intro be16_load) simp
            have p2: "be16 frame (16 + 4 * ?ihl) = ntohs (load_u16 frame (16 + 4 * ?ihl))"
              using False by (intro be16_load) simp
            have "\<not> int ?n < 14 + int ?ihl * 4 + 20" using False by linarith
            then have "fst (parse_packet_fast self frame) = None \<longleftrightarrow>
                \<not> (is_exchange_port (ntohs (load_u16 frame (14 + 4 * ?ihl))) \<or>
                   is_exchange_port (ntohs (load_u16 frame (14 + 4 * ?ihl + 2))))"
              using tcp ip n34 guard
              by (simp add: parse_packet_fast_def pl Let_def ui finish_parse_none
                    classify_trading l4 del: of_nat_unat)
            moreover have "spec_rejects frame \<longleftrightarrow>
                \<not> (is_exchange_port (ntohs (load_u16 frame (14 + 4 * ?ihl))) \<or>
                   is_exchange_port (ntohs (load_u16 frame (14 + 4 * ?ihl + 2))))"
              using ok nip nt
              by (simp add: spec_rejects_def no_port_matches_def derived_ports_def b23 tcp
                    ihlw p1 p2 is_exchange_port_member)
            ultimately show ?thesis by simp
          qed
        next
          case udp
          show ?thesis
          proof (cases "?n < 14 + 4 * ?ihl + 8")
            case True
            then have "l4_header_truncated frame"
              by (simp add: l4_header_truncated_def b23 udp ihlw)
            then have "spec_rejects frame" by (simp add: spec_rejects_def)
            moreover have "int ?n < 14 + int ?ihl * 4 + 8" using True by linarith
            then have "fst (parse_packet_fast self frame) = None"
              using udp ip n34 guard
              by (simp add: parse_packet_fast_def pl Let_def ui del: of_nat_unat)
            ultimately show ?thesis by simp
          next
            case False
            then have nt: "\<not> l4_header_truncated frame"
              by (simp add: l4_header_truncated_def b23 udp ihlw)
            have p1: "be16 frame (14 + 4 * ?ihl) = ntohs (load_u16 frame (14 + 4 * ?ihl))"
              using False by (intro be16_load) simp
            have p2: "be16 frame (16 + 4 * ?ihl) = ntohs (load_u16 frame (16 + 4 * ?ihl))"
              using False by (intro be16_load) simp
            have "\<not> int ?n < 14 + int ?ihl * 4 + 8" using False by linarith
            then have "fst (parse_packet_fast self frame) = None \<longleftrightarrow>
                \<not> (is_exchange_port (ntohs (load_u16 frame (14 + 4 * ?ihl))) \<or>
                   is_exchange_port (ntohs (load_u16 frame (14 + 4 * ?ihl + 2))))"
              using udp ip n34 guard
              by (simp add: parse_packet_fast_def pl Let_def ui finish_parse_none
                    classify_trading l4 del: of_nat_unat)
            moreover have "spec_rejects frame \<longleftrightarrow>
                \<not> (is_exchange_port (ntohs (load_u16 frame (14 + 4 * ?ihl))) \<or>
                   is_exchange_port (ntohs (load_u16 frame (14 + 4 * ?ihl + 2))))"
              using ok nip nt
              by (simp add: spec_rejects_def no_port_matches_def derived_ports_def b23 udp
                    ihlw p1 p2 is_exchange_port_member)
            ultimately show ?thesis by simp
          qed
        qed
      qed
    qed
  qed
qed

theorem parse_none_iff_witness:
  "length nyse_tcp_frame < 2 ^ 31 \<and>
   fst (parse_packet_fast FastPacketParser_cinit nyse_tcp_frame) \<noteq> None \<and>
   \<not> spec_rejects nyse_tcp_frame \<and>
   length dns_udp_frame < 2 ^ 31 \<and>
   fst (parse_packet_fast FastPacketParser_cinit dns_udp_frame) = None \<and>
   spec_rejects dns_udp_frame"
proof -
  have l1: "length nyse_tcp_frame < 2 ^ 31" by (simp add: nyse_tcp_frame_def)
  have l2: "length dns_udp_frame < 2 ^ 31" by (simp add: dns_udp_frame_def)
  have a: "fst (parse_packet_fast FastPacketParser_cinit nyse_tcp_frame) \<noteq> None"
    by (simp add: parse_packet_fast_def nyse_tcp_frame_def Let_def ntohs_load_u16
          finish_parse_def classify_l4_def is_exchange_port_def NYSE_PORTS_def)
  have b: "fst (parse_packet_fast FastPacketParser_cinit dns_udp_frame) = None"
    by (simp add: parse_packet_fast_def dns_udp_frame_def Let_def ntohs_load_u16
          finish_parse_def classify_l4_def is_exchange_port_def NYSE_PORTS_def
          NASDAQ_PORTS_def CBOE_PORTS_def)
  from a b parse_none_iff[OF l1, of FastPacketParser_cinit]
    parse_none_iff[OF l2, of FastPacketParser_cinit] l1 l2
  show ?thesis by simp
qed

lemma be_bytes16:
  "push_bit 8 (ucast (0xD4 :: u8)) OR ucast (0x31 :: u8) = (54321 :: u16)"
  "push_bit 8 (ucast (0x0F :: u8)) OR ucast (0xA1 :: u8) = (4001 :: u16)"
  "push_bit 8 (ucast (0x08 :: u8)) OR ucast (0x00 :: u8) = (0x0800 :: u16)"
  by simp_all

lemma be_bytes32:
  "push_bit 24 (ucast (10 :: u8)) OR push_bit 16 (ucast (0 :: u8)) OR
     push_bit 8 (ucast (0 :: u8)) OR ucast (1 :: u8) = (0x0A000001 :: u32)"
  "push_bit 24 (ucast (10 :: u8)) OR push_bit 16 (ucast (0 :: u8)) OR
     push_bit 8 (ucast (0 :: u8)) OR ucast (2 :: u8) = (0x0A000002 :: u32)"
  by simp_all




section \<open>Memory pool: the counters and the offending releases\<close>

lemma set_block_fields [simp]:
  "pool_memory (set_block p i b) = pool_memory p"
  "pool_bytes (set_block p i b) = pool_bytes p"
  "free_blocks (set_block p i b) = free_blocks p"
  "pool_size (set_block p i b) = pool_size p"
  "block_size (set_block p i b) = block_size p"
  "num_blocks (set_block p i b) = num_blocks p"
  "blocks_allocated (set_block p i b) = blocks_allocated p"
  "blocks_free (set_block p i b) = blocks_free p"
  "total_allocations (set_block p i b) = total_allocations p"
  "total_deallocations (set_block p i b) = total_deallocations p"
  "allocated_views (set_block p i b) = allocated_views p"
  "length (all_blocks (set_block p i b)) = length (all_blocks p)"
  by (simp_all add: set_block_def)

lemma set_block_inside:
  assumes "i < length (all_blocks p)"
  shows "all_blocks (set_block p i b) = (all_blocks p)[i := b]"
    and "beyond_blocks (set_block p i b) = beyond_blocks p"
  using assms by (simp_all add: set_block_def)

lemma block_at_inside:
  assumes "i < length (all_blocks p)"
  shows "block_at p i = all_blocks p ! i"
  using assms by (simp add: block_at_def)

lemma allocate_block_fast_sum:
  "blocks_allocated (snd (allocate_block_fast p)) + blocks_free (snd (allocate_block_fast p))
     = blocks_allocated p + blocks_free p \<and>
   num_blocks (snd (allocate_block_fast p)) = num_blocks p \<and>
   length (all_blocks (snd (allocate_block_fast p))) = length (all_blocks p)"
  by (simp add: allocate_block_fast_def Let_def split: option.splits)

lemma allocate_sum:
  "blocks_allocated (snd (allocate p v)) + blocks_free (snd (allocate p v))
     = blocks_allocated p + blocks_free p \<and>
   num_blocks (snd (allocate p v)) = num_blocks p \<and>
   length (all_blocks (snd (allocate p v))) = length (all_blocks p)"
proof (cases "allocate_block_fast p")
  case (Pair ptr p')
  with allocate_block_fast_sum[of p] show ?thesis
    by (simp add: allocate_def)
qed

lemma deallocate_block_fast_sum:
  "blocks_allocated (deallocate_block_fast p ptr) + blocks_free (deallocate_block_fast p ptr)
     = blocks_allocated p + blocks_free p \<and>
   num_blocks (deallocate_block_fast p ptr) = num_blocks p \<and>
   length (all_blocks (deallocate_block_fast p ptr)) = length (all_blocks p)"
  by (simp add: deallocate_block_fast_def Let_def split: option.splits)

lemma deallocate_sum:
  "blocks_allocated (deallocate p m) + blocks_free (deallocate p m)
     = blocks_allocated p + blocks_free p \<and>
   num_blocks (deallocate p m) = num_blocks p \<and>
   length (all_blocks (deallocate p m)) = length (all_blocks p)"
  using deallocate_block_fast_sum
  by (simp add: deallocate_def Let_def split: option.splits)

lemma run_pool_sum:
  "blocks_allocated (run_pool p ops) + blocks_free (run_pool p ops)
     = blocks_allocated p + blocks_free p \<and>
   num_blocks (run_pool p ops) = num_blocks p \<and>
   length (all_blocks (run_pool p ops)) = length (all_blocks p)"
proof (induction p ops rule: run_pool.induct)
  case (1 p)
  then show ?case by simp
next
  case (2 p v ops)
  then show ?case using allocate_sum[of p v] by simp
next
  case (3 p m ops)
  then show ?case using deallocate_sum[of p m] by simp
qed

lemma cinit_pool_fields:
  assumes "HighPerformanceMemoryPool_cinit arena ok heap ps bs mm = Inr p"
  shows "bs \<noteq> 0" "num_blocks p = ps div bs" "blocks_allocated p = 0"
    "blocks_free p = ps div bs" "free_blocks p = Some 0"
    "all_blocks p = initialize_blocks arena (ps div bs) bs"
    "total_allocations p = 0" "total_deallocations p = 0" "arena \<noteq> 0"
    "allocated_views p = Map.empty" "pool_memory p = arena"
  using assms
  by (auto simp: HighPerformanceMemoryPool_cinit_def Let_def split: if_splits)

lemma free_chain_update:
  assumes "i \<notin> set fl"
  shows "free_chain (bs[i := b]) h fl = free_chain bs h fl"
  using assms by (induction fl arbitrary: h) auto

lemma free_chain_member:
  assumes "free_chain bs h fl" "j \<in> set fl"
  shows "j < length bs \<and> \<not> blk_in_use (bs ! j)"
  using assms by (induction fl arbitrary: h) auto

lemma pool_inv_views [simp]:
  "pool_inv (p\<lparr>allocated_views := x\<rparr>) fl = pool_inv p fl"
  by (simp add: pool_inv_def)

lemma find_block_views [simp]:
  "find_block (p\<lparr>allocated_views := x\<rparr>) off = find_block p off"
  by (simp add: find_block_def block_at_def)

lemma find_block_SomeD:
  assumes "find_block p off = Some i"
  shows "i < unat (num_blocks p) \<and> blk_offset (block_at p i) = off"
  using assms by (auto simp: find_block_def find_Some_iff)

lemma distinct_length_less:
  assumes "distinct fl" "\<forall>j \<in> set fl. j < n" "i < n" "i \<notin> set fl"
  shows "length fl < n"
proof -
  have "set fl \<subseteq> {0..<n} - {i}" using assms by auto
  then have "card (set fl) \<le> card ({0..<n} - {i})" by (intro card_mono) auto
  also have "\<dots> = n - 1" using assms(3) by simp
  finally show ?thesis using assms(1,3) by (simp add: distinct_card)
qed

lemma unat_num_blocks_bound: "unat (w :: u32) < 2 ^ 32"
  using unsigned_less[of w, where ?'a = nat] by simp

lemma pool_inv_alloc_empty:
  assumes "pool_inv p []"
  shows "allocate_block_fast p = (0, p)"
  using assms by (simp add: pool_inv_def allocate_block_fast_def)

lemma pool_inv_alloc_cons:
  assumes inv: "pool_inv p (i # fl)"
  obtains p' where "allocate_block_fast p = (blk_data (all_blocks p ! i), p')"
    "blk_data (all_blocks p ! i) \<noteq> 0"
    "pool_inv p' fl"
    "unat (blocks_allocated p') = unat (blocks_allocated p) + 1"
    "unat (blocks_free p') + 1 = unat (blocks_free p)"
    "num_blocks p' = num_blocks p"
    "total_allocations p' = total_allocations p + 1"
    "total_deallocations p' = total_deallocations p"
    "allocated_views p' = allocated_views p"
proof -
  let ?bs = "all_blocks p"
  let ?b = "?bs ! i"
  let ?p' = "(set_block (p\<lparr>free_blocks := blk_next ?b\<rparr>) i
                (?b\<lparr>blk_in_use := True, blk_next := None\<rparr>))
               \<lparr>blocks_allocated := blocks_allocated p + 1,
                blocks_free := blocks_free p - 1,
                total_allocations := total_allocations p + 1\<rparr>"
  from inv have len: "length ?bs = unat (num_blocks p)"
    and hd: "free_blocks p = Some i" and i: "i < length ?bs"
    and ch: "free_chain ?bs (blk_next ?b) fl"
    and d: "i \<notin> set fl" "distinct fl"
    and cov: "list_all (\<lambda>j. blk_in_use (?bs ! j) \<or> j \<in> set (i # fl)) [0..<length ?bs]"
    and dat: "list_all (\<lambda>b. blk_data b \<noteq> 0) ?bs"
    and fr: "unat (blocks_free p) = Suc (length fl)"
    and al: "unat (blocks_allocated p) + Suc (length fl) = unat (num_blocks p)"
    by (auto simp: pool_inv_def)
  have a: "allocate_block_fast p = (blk_data ?b, ?p')"
    using hd i by (simp add: allocate_block_fast_def Let_def block_at_def)
  have nz: "blk_data ?b \<noteq> 0" using dat i by (auto simp: list_all_iff)
  have bs': "all_blocks ?p' = ?bs[i := ?b\<lparr>blk_in_use := True, blk_next := None\<rparr>]"
    using i by (simp add: set_block_def)
  have "unat (blocks_allocated p) + unat (1 :: u32) < 2 ^ LENGTH(32)"
    using al unat_num_blocks_bound[of "num_blocks p"] by simp
  then have a1: "unat (blocks_allocated p + 1) = unat (blocks_allocated p) + 1"
    by (simp only: unat_add_lem[THEN iffD1]) simp
  have "blocks_free p \<noteq> 0" using fr by (auto simp: unat_eq_0[symmetric] simp del: unat_eq_0)
  then have f1: "unat (blocks_free p - 1) = unat (blocks_free p) - 1"
    by (rule unat_minus_one)
  have cov': "list_all (\<lambda>j. blk_in_use (?bs[i := ?b\<lparr>blk_in_use := True, blk_next := None\<rparr>] ! j)
                  \<or> j \<in> set fl) [0..<length ?bs]"
    using cov i by (auto simp: list_all_iff nth_list_update)
  have dat': "list_all (\<lambda>b. blk_data b \<noteq> 0) (?bs[i := ?b\<lparr>blk_in_use := True, blk_next := None\<rparr>])"
    using dat i by (auto simp: list_all_iff dest!: set_update_subset_insert[THEN subsetD])
  have "pool_inv ?p' fl"
    using len ch d cov' dat' fr al a1 f1
    by (simp add: pool_inv_def bs' free_chain_update)
  then show ?thesis
    using a nz a1 f1 fr by (intro that[of ?p']) simp_all
qed

lemma pool_inv_dealloc:
  assumes inv: "pool_inv p fl"
  shows "deallocate_block_fast p ptr = p \<or>
         (\<exists>i. pool_inv (deallocate_block_fast p ptr) (i # fl) \<and>
              unat (blocks_allocated (deallocate_block_fast p ptr)) + 1 = unat (blocks_allocated p) \<and>
              unat (blocks_free (deallocate_block_fast p ptr)) = unat (blocks_free p) + 1 \<and>
              total_deallocations (deallocate_block_fast p ptr) = total_deallocations p + 1)"
proof -
  let ?off = "word_of_int (int ptr - int (pool_memory p)) :: u32"
  let ?bs = "all_blocks p"
  from inv have len: "length ?bs = unat (num_blocks p)"
    and ch: "free_chain ?bs (free_blocks p) fl"
    and d: "distinct fl"
    and cov: "list_all (\<lambda>j. blk_in_use (?bs ! j) \<or> j \<in> set fl) [0..<length ?bs]"
    and dat: "list_all (\<lambda>b. blk_data b \<noteq> 0) ?bs"
    and fr: "unat (blocks_free p) = length fl"
    and al: "unat (blocks_allocated p) + length fl = unat (num_blocks p)"
    by (auto simp: pool_inv_def)
  show ?thesis
  proof (cases "find_block p ?off")
    case None
    then show ?thesis by (simp add: deallocate_block_fast_def)
  next
    case (Some i)
    from find_block_SomeD[OF Some] len have i: "i < length ?bs" by simp
    then have at: "block_at p i = ?bs ! i" by (rule block_at_inside)
    show ?thesis
    proof (cases "blk_in_use (?bs ! i)")
      case False
      then show ?thesis using Some by (simp add: deallocate_block_fast_def Let_def at)
    next
      case True
      let ?b = "?bs ! i"
      let ?p' = "(set_block (p\<lparr>pool_bytes := memset_zero (pool_bytes p)
                     (blk_data ?b - pool_memory p) (unat (blk_size ?b))\<rparr>) i
                   (?b\<lparr>blk_in_use := False, blk_next := free_blocks p\<rparr>))
              \<lparr>free_blocks := Some i,
               blocks_allocated := blocks_allocated p - 1,
               blocks_free := blocks_free p + 1,
               total_deallocations := total_deallocations p + 1\<rparr>"
      have eq: "deallocate_block_fast p ptr = ?p'"
        using Some True by (simp add: deallocate_block_fast_def Let_def at)
      have bs': "all_blocks ?p' = ?bs[i := ?b\<lparr>blk_in_use := False, blk_next := free_blocks p\<rparr>]"
        using i by (simp add: set_block_def)
      have nin: "i \<notin> set fl" using free_chain_member[OF ch] True by auto
      have "\<forall>j \<in> set fl. j < length ?bs" using free_chain_member[OF ch] by auto
      from distinct_length_less[OF d this i nin] have lt: "length fl < unat (num_blocks p)"
        using len by simp
      then have "blocks_allocated p \<noteq> 0" using al
        by (auto simp: unat_eq_0[symmetric] simp del: unat_eq_0)
      then have a1: "unat (blocks_allocated p - 1) = unat (blocks_allocated p) - 1"
        by (rule unat_minus_one)
      have apos: "0 < unat (blocks_allocated p)" using lt al by simp
      have "unat (blocks_free p) + unat (1 :: u32) < 2 ^ LENGTH(32)"
        using fr lt unat_num_blocks_bound[of "num_blocks p"] by simp
      then have f1: "unat (blocks_free p + 1) = unat (blocks_free p) + 1"
        by (simp only: unat_add_lem[THEN iffD1]) simp
      have cov': "list_all (\<lambda>j. blk_in_use (?bs[i := ?b\<lparr>blk_in_use := False,
                      blk_next := free_blocks p\<rparr>] ! j) \<or> j \<in> set (i # fl)) [0..<length ?bs]"
        using cov i by (auto simp: list_all_iff nth_list_update)
      have dat': "list_all (\<lambda>b. blk_data b \<noteq> 0)
                    (?bs[i := ?b\<lparr>blk_in_use := False, blk_next := free_blocks p\<rparr>])"
        using dat i by (auto simp: list_all_iff dest!: set_update_subset_insert[THEN subsetD])
      have "pool_inv ?p' (i # fl)"
        using len ch d cov' dat' fr al a1 f1 i nin apos
        by (simp add: pool_inv_def bs' free_chain_update)
      then have "pool_inv (deallocate_block_fast p ptr) (i # fl)" by (simp only: eq)
      moreover have "unat (blocks_allocated (deallocate_block_fast p ptr)) + 1
                       = unat (blocks_allocated p)"
        using a1 apos by (simp add: eq)
      moreover have "unat (blocks_free (deallocate_block_fast p ptr)) = unat (blocks_free p) + 1"
        using f1 by (simp add: eq)
      moreover have "total_deallocations (deallocate_block_fast p ptr)
                       = total_deallocations p + 1"
        by (simp add: eq)
      ultimately show ?thesis by blast
    qed
  qed
qed

lemma pool_inv_sum:
  assumes "pool_inv p fl"
  shows "unat (blocks_allocated p) + unat (blocks_free p) = unat (num_blocks p)"
  using assms by (simp add: pool_inv_def)

lemma pool_inv_allocate:
  assumes inv: "pool_inv p fl"
  shows "\<exists>r p' fl'. allocate p v = (r, p') \<and> pool_inv p' fl' \<and>
           (case r of
              None \<Rightarrow> p' = p
            | Some h \<Rightarrow> fst h = v \<and>
                        unat (blocks_allocated p') = unat (blocks_allocated p) + 1 \<and>
                        unat (blocks_free p') + 1 = unat (blocks_free p))"
proof (cases fl)
  case Nil
  with inv have "allocate_block_fast p = (0, p)" by (simp add: pool_inv_alloc_empty)
  then have "allocate p v = (None, p)" by (simp add: allocate_def)
  with inv show ?thesis by auto
next
  case (Cons i rest)
  from inv[unfolded Cons] obtain p' where
    a: "allocate_block_fast p = (blk_data (all_blocks p ! i), p')"
    and nz: "blk_data (all_blocks p ! i) \<noteq> 0"
    and i': "pool_inv p' rest"
    and c: "unat (blocks_allocated p') = unat (blocks_allocated p) + 1"
      "unat (blocks_free p') + 1 = unat (blocks_free p)"
    by (rule pool_inv_alloc_cons)
  let ?h = "(v, blk_data (all_blocks p ! i))"
  let ?q = "p'\<lparr>allocated_views := (allocated_views p')(v \<mapsto> blk_data (all_blocks p ! i))\<rparr>"
  have "allocate p v = (Some ?h, ?q)" using a nz by (simp add: allocate_def)
  moreover have "pool_inv ?q rest" using i' by simp
  ultimately show ?thesis using c by auto
qed

lemma deallocate_block_fast_views_total:
  "total_deallocations (deallocate_block_fast (p\<lparr>allocated_views := x\<rparr>) ptr)
     = total_deallocations (deallocate_block_fast p ptr)"
  by (simp add: deallocate_block_fast_def Let_def block_at_def split: option.splits)

lemma release_accepted_total:
  assumes "release_accepted p m"
  shows "total_deallocations (deallocate p m) = total_deallocations p + 1"
  using assms
  by (auto simp: release_accepted_def deallocate_def deallocate_block_fast_def Let_def
        block_at_def split: option.splits)

lemma release_rejected:
  assumes "\<not> release_accepted p m"
  shows "(deallocate p m)\<lparr>allocated_views := allocated_views p\<rparr> = p"
  using assms
  by (auto simp: release_accepted_def deallocate_def deallocate_block_fast_def Let_def
        block_at_def split: option.splits)

lemma pool_inv_deallocate:
  assumes inv: "pool_inv p fl"
  shows "\<exists>fl'. pool_inv (deallocate p m) fl' \<and>
           (if release_accepted p m
            then unat (blocks_allocated (deallocate p m)) + 1 = unat (blocks_allocated p) \<and>
                 unat (blocks_free (deallocate p m)) = unat (blocks_free p) + 1
            else blocks_allocated (deallocate p m) = blocks_allocated p \<and>
                 blocks_free (deallocate p m) = blocks_free p)"
proof (cases "release_accepted p m")
  case False
  from release_rejected[OF False]
  have eq: "p = (deallocate p m)\<lparr>allocated_views := allocated_views p\<rparr>" by simp
  have "pool_inv ((deallocate p m)\<lparr>allocated_views := allocated_views p\<rparr>) fl"
    using inv eq by simp
  then have "pool_inv (deallocate p m) fl" by simp
  moreover have "blocks_allocated (deallocate p m) = blocks_allocated p"
    "blocks_free (deallocate p m) = blocks_free p"
    by (subst (2) eq, simp)+
  ultimately show ?thesis using False by auto
next
  case True
  then obtain view ptr where m: "m = Some view" and v: "allocated_views p (fst view) = Some ptr"
    by (auto simp: release_accepted_def split: option.splits)
  let ?q = "p\<lparr>allocated_views := (allocated_views p)(fst view := None)\<rparr>"
  have d: "deallocate p m = deallocate_block_fast ?q ptr"
    by (simp add: deallocate_def m v)
  have invq: "pool_inv ?q fl" using inv by simp
  have "total_deallocations (deallocate_block_fast ?q ptr) \<noteq> total_deallocations ?q"
    using release_accepted_total[OF True] by (simp add: d)
  then have "deallocate_block_fast ?q ptr \<noteq> ?q" by auto
  with pool_inv_dealloc[OF invq, of ptr] obtain i where
    "pool_inv (deallocate_block_fast ?q ptr) (i # fl)"
    "unat (blocks_allocated (deallocate_block_fast ?q ptr)) + 1 = unat (blocks_allocated ?q)"
    "unat (blocks_free (deallocate_block_fast ?q ptr)) = unat (blocks_free ?q) + 1"
    by blast
  then show ?thesis using True by (auto simp: d)
qed

lemma run_pool_inv:
  assumes "pool_inv p fl"
  shows "\<exists>fl'. pool_inv (run_pool p ops) fl'"
  using assms
proof (induction ops arbitrary: p fl)
  case Nil
  then show ?case by auto
next
  case (Cons op ops)
  show ?case
  proof (cases op)
    case (Allocate v)
    from pool_inv_allocate[OF Cons.prems, of v] obtain r q fl' where
      a: "allocate p v = (r, q)" and i: "pool_inv q fl'" by blast
    from Cons.IH[OF i] show ?thesis by (simp add: Allocate a)
  next
    case (Deallocate m)
    from pool_inv_deallocate[OF Cons.prems, of m] obtain fl' where
      i: "pool_inv (deallocate p m) fl'" by blast
    from Cons.IH[OF i] show ?thesis by (simp add: Deallocate)
  qed
qed

lemma init_chain:
  assumes len: "length bs = N"
    and blk: "\<forall>j<N. \<not> blk_in_use (bs ! j) \<and>
                 blk_next (bs ! j) = (if j + 1 < N then Some (j + 1) else None)"
    and k: "k \<le> N"
  shows "free_chain bs (if k < N then Some k else None) [k..<N]"
  using k
proof (induction "N - k" arbitrary: k)
  case 0
  then show ?case by simp
next
  case (Suc d)
  then have kN: "k < N" by simp
  have u: "[k..<N] = k # [Suc k..<N]" using kN by (simp add: upt_conv_Cons)
  have "d = N - Suc k" using Suc.hyps(2) by simp
  from Suc.hyps(1)[OF this] kN
  have "free_chain bs (if Suc k < N then Some (Suc k) else None) [Suc k..<N]" by simp
  moreover from blk kN have "\<not> blk_in_use (bs ! k)"
    "blk_next (bs ! k) = (if Suc k < N then Some (Suc k) else None)" by simp_all
  ultimately show ?case using kN len by (simp add: u)
qed

lemma unat_word_of_nat32:
  assumes "i < unat (n :: u32)"
  shows "unat (word_of_nat i :: u32) = i"
proof -
  have "i < 2 ^ 32" using assms unat_num_blocks_bound[of n] by simp
  then show ?thesis by (simp add: unat_of_nat)
qed

lemma init_next:
  assumes "i < unat (n :: u32)"
  shows "(word_of_nat i < n - 1) \<longleftrightarrow> i + 1 < unat n"
proof -
  have "n \<noteq> 0" using assms by auto
  then have "unat (n - 1) = unat n - 1" by (rule unat_minus_one)
  then show ?thesis using assms by (auto simp: word_less_nat_alt unat_word_of_nat32)
qed

lemma initialize_blocks_nth:
  assumes "i < unat n"
  shows "initialize_blocks base n bsize ! i =
     \<lparr>blk_data = base + unat (word_of_nat i * bsize), blk_size = bsize,
      blk_offset = word_of_nat i * bsize, blk_in_use = False,
      blk_next = (if i + 1 < unat n then Some (i + 1) else None)\<rparr>"
  using assms by (simp add: initialize_blocks_def init_next)

lemma length_initialize_blocks [simp]:
  "length (initialize_blocks base n bsize) = unat n"
  by (simp add: initialize_blocks_def)

lemma word_div_pos:
  assumes "(b :: u32) \<le> a" "b \<noteq> 0"
  shows "0 < unat (a div b)"
proof -
  have "0 < unat b" using assms(2) by (simp add: unat_gt_0)
  moreover have "unat b \<le> unat a" using assms(1) by (simp add: word_le_nat_alt)
  ultimately have "0 < unat a div unat b" by (simp add: div_greater_zero_iff)
  then show ?thesis by (simp add: unat_div)
qed

lemma cinit_pool_inv:
  assumes c: "HighPerformanceMemoryPool_cinit arena ok heap ps bs mm = Inr p"
    and le: "bs \<le> ps"
  shows "pool_inv p [0..<unat (ps div bs)]"
proof -
  let ?n = "ps div bs"
  note f = cinit_pool_fields[OF c]
  have pos: "0 < unat ?n" using word_div_pos[OF le f(1)] .
  have "free_chain (all_blocks p) (if 0 < unat ?n then Some 0 else None) [0..<unat ?n]"
    by (rule init_chain) (simp_all add: f(6) initialize_blocks_nth)
  then have ch: "free_chain (all_blocks p) (free_blocks p) [0..<unat ?n]"
    using pos by (simp add: f(5))
  have dat: "list_all (\<lambda>b. blk_data b \<noteq> 0) (all_blocks p)"
    using f(9) by (simp add: f(6) initialize_blocks_def list_all_iff)
  show ?thesis
    using ch dat by (simp add: pool_inv_def f list_all_iff)
qed

lemma deallocate_key_removed:
  "allocated_views (deallocate p (Some view)) (fst view) = None"
  by (simp add: deallocate_def deallocate_block_fast_def Let_def split: option.splits)

lemma deallocate_twice: "deallocate (deallocate p m) m = deallocate p m"
proof (cases m)
  case None
  then show ?thesis by (simp add: deallocate_def)
next
  case (Some view)
  from deallocate_key_removed[of p view] show ?thesis
    by (simp add: Some deallocate_def[of "deallocate p (Some view)"])
qed

lemma deallocate_keys:
  "allocated_views (deallocate p m) k \<noteq> None \<Longrightarrow> allocated_views p k \<noteq> None"
  by (auto simp: deallocate_def deallocate_block_fast_def Let_def split: option.splits if_splits)

lemma allocate_block_fast_views:
  "allocated_views (snd (allocate_block_fast p)) = allocated_views p"
  by (simp add: allocate_block_fast_def Let_def split: option.splits)

lemma allocate_keys:
  assumes "allocate p v = (r, p')" "allocated_views p' k \<noteq> None"
  shows "allocated_views p k \<noteq> None \<or> (\<exists>h. r = Some h \<and> fst h = k)"
proof (cases "allocate_block_fast p")
  case (Pair ptr q)
  with allocate_block_fast_views[of p] have "allocated_views q = allocated_views p" by simp
  with assms Pair show ?thesis by (auto simp: allocate_def split: if_splits)
qed

lemma run_pool_keys:
  "allocated_views (run_pool p ops) k \<noteq> None \<Longrightarrow>
     allocated_views p k \<noteq> None \<or> k \<in> fst ` set (issued p ops)"
proof (induction p ops rule: run_pool.induct)
  case (1 p)
  then show ?case by simp
next
  case (2 p v ops)
  obtain r p' where a: "allocate p v = (r, p')" by (cases "allocate p v")
  from 2 a have "allocated_views p' k \<noteq> None \<or> k \<in> fst ` set (issued p' ops)" by simp
  then show ?case
  proof
    assume "allocated_views p' k \<noteq> None"
    from allocate_keys[OF a this] show ?thesis
      by (auto simp: a split: option.splits)
  next
    assume "k \<in> fst ` set (issued p' ops)"
    then show ?thesis by (auto simp: a split: option.splits)
  qed
next
  case (3 p m ops)
  then show ?case using deallocate_keys[of p m k] by auto
qed

lemma releases_keep_key_absent:
  assumes "allocated_views p k = None"
  shows "allocated_views (run_pool p (map Deallocate ms)) k = None"
  using assms
proof (induction ms arbitrary: p)
  case Nil
  then show ?case by simp
next
  case (Cons m ms)
  have "allocated_views (deallocate p m) k = None"
  proof (rule ccontr)
    assume "allocated_views (deallocate p m) k \<noteq> None"
    from deallocate_keys[OF this] Cons.prems show False by simp
  qed
  from Cons.IH[OF this] show ?case by simp
qed

lemma deallocate_unknown:
  assumes "allocated_views p (fst view) = None"
  shows "deallocate p (Some view) = p"
  using assms by (simp add: deallocate_def)

lemma deallocate_block_fast_twice:
  assumes len: "length (all_blocks p) = unat (num_blocks p)"
  shows "deallocate_block_fast (deallocate_block_fast p ptr) ptr = deallocate_block_fast p ptr"
proof -
  let ?off = "word_of_int (int ptr - int (pool_memory p)) :: u32"
  show ?thesis
  proof (cases "find_block p ?off")
    case None
    then show ?thesis by (simp add: deallocate_block_fast_def)
  next
    case (Some i)
    from find_block_SomeD[OF Some] len have i: "i < length (all_blocks p)" by simp
    then have at: "block_at p i = all_blocks p ! i" by (rule block_at_inside)
    show ?thesis
    proof (cases "blk_in_use (all_blocks p ! i)")
      case False
      then show ?thesis using Some by (simp add: deallocate_block_fast_def Let_def at)
    next
      case True
      let ?b = "all_blocks p ! i"
      let ?p' = "(set_block (p\<lparr>pool_bytes := memset_zero (pool_bytes p)
                     (blk_data ?b - pool_memory p) (unat (blk_size ?b))\<rparr>) i
                   (?b\<lparr>blk_in_use := False, blk_next := free_blocks p\<rparr>))
              \<lparr>free_blocks := Some i,
               blocks_allocated := blocks_allocated p - 1,
               blocks_free := blocks_free p + 1,
               total_deallocations := total_deallocations p + 1\<rparr>"
      have eq: "deallocate_block_fast p ptr = ?p'"
        using Some True by (simp add: deallocate_block_fast_def Let_def at)
      have bs': "all_blocks ?p' = (all_blocks p)[i := ?b\<lparr>blk_in_use := False,
                                                      blk_next := free_blocks p\<rparr>]"
        using i by (simp add: set_block_def)
      have "\<And>j. j < unat (num_blocks p) \<Longrightarrow>
              blk_offset (block_at ?p' j) = blk_offset (block_at p j)"
        using len i by (auto simp: block_at_def bs' nth_list_update)
      then have "find_block ?p' ?off = find_block p ?off"
        unfolding find_block_def by (intro find_cong) auto
      then have fb: "find_block ?p' ?off = Some i" using Some by simp
      have nu: "\<not> blk_in_use (block_at ?p' i)" using i by (simp add: block_at_def bs')
      have "deallocate_block_fast ?p' ptr = ?p'"
        using fb nu by (simp add: deallocate_block_fast_def Let_def)
      then show ?thesis by (simp only: eq)
    qed
  qed
qed

text \<open>
  Claim C5 fails on a pool of no block. With \<open>pool_size = 4\<close> and \<open>block_size = 16\<close> the
  constructor sets \<open>num_blocks = 0\<close> and lets \<open>free_blocks\<close> point to \<open>all_blocks[0]\<close>,
  which does not exist; \<open>_allocate_block_fast\<close> tests the pointer against \<open>NULL\<close> only,
  takes what lies behind the array for a free descriptor and counts: after the first
  \<open>allocate\<close>, \<open>blocks_allocated\<close> is 1 and \<open>blocks_free\<close> is \<open>2\<^sup>3\<^sup>2 - 1\<close>, with
  \<open>num_blocks\<close> still 0. The call returns a view on whatever address that memory held in
  the place of the \<open>data\<close> pointer, or \<open>None\<close> when it held \<open>NULL\<close>.
\<close>

theorem pool_without_block_counterexample:
  "\<forall>heap. \<exists>p0 r p.
     HighPerformanceMemoryPool_cinit 4096 True heap 4 16 False = Inr p0 \<and>
     num_blocks p0 = 0 \<and> blocks_allocated p0 = 0 \<and> blocks_free p0 = 0 \<and>
     allocate p0 7 = (r, p) \<and>
     r = (if blk_data (heap 0) = 0 then None else Some (7, blk_data (heap 0))) \<and>
     num_blocks p = 0 \<and> blocks_allocated p = 1 \<and> blocks_free p = 4294967295 \<and>
     unat (blocks_allocated p) + unat (blocks_free p) \<noteq> unat (num_blocks p)"
proof
  fix heap :: "nat \<Rightarrow> memory_block"
  have d: "(4 :: u32) div 16 = 0" by (simp add: word_div_def)
  show "\<exists>p0 r p.
     HighPerformanceMemoryPool_cinit 4096 True heap 4 16 False = Inr p0 \<and>
     num_blocks p0 = 0 \<and> blocks_allocated p0 = 0 \<and> blocks_free p0 = 0 \<and>
     allocate p0 7 = (r, p) \<and>
     r = (if blk_data (heap 0) = 0 then None else Some (7, blk_data (heap 0))) \<and>
     num_blocks p = 0 \<and> blocks_allocated p = 1 \<and> blocks_free p = 4294967295 \<and>
     unat (blocks_allocated p) + unat (blocks_free p) \<noteq> unat (num_blocks p)"
    by (simp add: HighPerformanceMemoryPool_cinit_def Let_def d initialize_blocks_def
          allocate_def allocate_block_fast_def block_at_def set_block_def)
qed

text \<open>
  Claim C5 for a pool of at least one block (\<open>block_size \<le> pool_size\<close>): after every
  sequence of \<open>allocate\<close> and \<open>deallocate\<close> calls,
  \<open>blocks_allocated + blocks_free = num_blocks\<close> as numbers. In the state reached, an
  \<open>allocate\<close> that returns a block adds one to \<open>blocks_allocated\<close> and takes one from
  \<open>blocks_free\<close>, an \<open>allocate\<close> on the exhausted pool changes nothing, a release that
  passes the guards of \<open>deallocate\<close> does the reverse, and any other release leaves both
  counters. For every pool, the one of no block included, the sum holds in \<open>uint32_t\<close>
  arithmetic, that is modulo \<open>2\<^sup>3\<^sup>2\<close>. The witness is a pool of four blocks: six
  allocations and a double release, after which the pool is exhausted with four blocks
  allocated.
\<close>

theorem pool_counters_sum:
  assumes c: "HighPerformanceMemoryPool_cinit arena blocks_ok heap psize bsize mm = Inr p0"
  shows "(\<forall>ops. blocks_allocated (run_pool p0 ops) + blocks_free (run_pool p0 ops)
                  = num_blocks (run_pool p0 ops) \<and>
                num_blocks (run_pool p0 ops) = psize div bsize) \<and>
         (bsize \<le> psize \<longrightarrow>
            (\<forall>ops p. p = run_pool p0 ops \<longrightarrow>
               unat (blocks_allocated p) + unat (blocks_free p) = unat (num_blocks p) \<and>
               (\<forall>v. \<exists>r p'. allocate p v = (r, p') \<and>
                  (case r of
                     None \<Rightarrow> p' = p
                   | Some h \<Rightarrow>
                       unat (blocks_allocated p') = unat (blocks_allocated p) + 1 \<and>
                       unat (blocks_free p') + 1 = unat (blocks_free p))) \<and>
               (\<forall>m. if release_accepted p m
                    then unat (blocks_allocated (deallocate p m)) + 1
                           = unat (blocks_allocated p) \<and>
                         unat (blocks_free (deallocate p m)) = unat (blocks_free p) + 1
                    else blocks_allocated (deallocate p m) = blocks_allocated p \<and>
                         blocks_free (deallocate p m) = blocks_free p)))"
proof -
  have A: "blocks_allocated (run_pool p0 ops) + blocks_free (run_pool p0 ops)
             = num_blocks (run_pool p0 ops) \<and>
           num_blocks (run_pool p0 ops) = psize div bsize" for ops
    using run_pool_sum[of p0 ops] cinit_pool_fields(2-4)[OF c] by simp
  have B: "unat (blocks_allocated p) + unat (blocks_free p) = unat (num_blocks p) \<and>
       (\<forall>v. \<exists>r p'. allocate p v = (r, p') \<and>
          (case r of
             None \<Rightarrow> p' = p
           | Some h \<Rightarrow> unat (blocks_allocated p') = unat (blocks_allocated p) + 1 \<and>
                       unat (blocks_free p') + 1 = unat (blocks_free p))) \<and>
       (\<forall>m. if release_accepted p m
            then unat (blocks_allocated (deallocate p m)) + 1 = unat (blocks_allocated p) \<and>
                 unat (blocks_free (deallocate p m)) = unat (blocks_free p) + 1
            else blocks_allocated (deallocate p m) = blocks_allocated p \<and>
                 blocks_free (deallocate p m) = blocks_free p)"
    if le: "bsize \<le> psize" and p: "p = run_pool p0 ops" for ops p
  proof -
    from run_pool_inv[OF cinit_pool_inv[OF c le], of ops] obtain fl where
      inv: "pool_inv p fl" unfolding p by blast
    have "\<exists>r p'. allocate p v = (r, p') \<and>
            (case r of
               None \<Rightarrow> p' = p
             | Some h \<Rightarrow> unat (blocks_allocated p') = unat (blocks_allocated p) + 1 \<and>
                         unat (blocks_free p') + 1 = unat (blocks_free p))" for v
    proof -
      from pool_inv_allocate[OF inv, of v] obtain r p' where
        a: "allocate p v = (r, p')"
        and b: "case r of None \<Rightarrow> p' = p
                | Some h \<Rightarrow> fst h = v \<and>
                    unat (blocks_allocated p') = unat (blocks_allocated p) + 1 \<and>
                    unat (blocks_free p') + 1 = unat (blocks_free p)"
        by blast
      from b have "case r of None \<Rightarrow> p' = p
                | Some h \<Rightarrow> unat (blocks_allocated p') = unat (blocks_allocated p) + 1 \<and>
                    unat (blocks_free p') + 1 = unat (blocks_free p)"
        by (cases r) simp_all
      with a show ?thesis by blast
    qed
    moreover have "if release_accepted p m
            then unat (blocks_allocated (deallocate p m)) + 1 = unat (blocks_allocated p) \<and>
                 unat (blocks_free (deallocate p m)) = unat (blocks_free p) + 1
            else blocks_allocated (deallocate p m) = blocks_allocated p \<and>
                 blocks_free (deallocate p m) = blocks_free p" for m
      using pool_inv_deallocate[OF inv, of m] by blast
    ultimately show ?thesis
      using pool_inv_sum[OF inv] by blast
  qed
  from A B show ?thesis by blast
qed

theorem pool_counters_sum_witness:
  "\<exists>p0 p. HighPerformanceMemoryPool_cinit 4096 True
              (\<lambda>i. \<lparr>blk_data = 0, blk_size = 0, blk_offset = 0, blk_in_use = False,
                    blk_next = None\<rparr>) 16 4 False = Inr p0 \<and>
     (4 :: u32) \<le> 16 \<and>
     p = run_pool p0 [Allocate 1, Allocate 2, Deallocate (Some (1, 4096)),
                      Deallocate (Some (1, 4096)),
                      Allocate 3, Allocate 4, Allocate 5, Allocate 6] \<and>
     num_blocks p = 4 \<and> blocks_allocated p = 4 \<and> blocks_free p = 0 \<and>
     unat (blocks_allocated p) + unat (blocks_free p) = unat (num_blocks p) \<and>
     blocks_allocated p + blocks_free p = num_blocks p"
proof -
  let ?ops = "[Allocate 1, Allocate 2, Deallocate (Some (1, 4096)),
               Deallocate (Some (1, 4096)),
               Allocate 3, Allocate 4, Allocate 5, Allocate 6]"
  obtain p0 where c: "HighPerformanceMemoryPool_cinit 4096 True
              (\<lambda>i. \<lparr>blk_data = 0, blk_size = 0, blk_offset = 0, blk_in_use = False,
                    blk_next = None\<rparr>) 16 4 False = Inr p0"
    by (simp add: HighPerformanceMemoryPool_cinit_def Let_def)
  have le: "(4 :: u32) \<le> 16" by simp
  define p where "p = run_pool p0 ?ops"
  note t = pool_counters_sum[OF c]
  from t[THEN conjunct2, rule_format, OF le p_def]
  have s: "unat (blocks_allocated p) + unat (blocks_free p) = unat (num_blocks p)"
    by blast
  from t[THEN conjunct1, rule_format, of ?ops]
  have w: "blocks_allocated p + blocks_free p = num_blocks p" "num_blocks p = 4"
    by (simp_all add: p_def)
  have u: "[0..<4] = [0, 1, 2, 3]" by (simp add: upt_rec)
  have "blocks_allocated p = 4"
    unfolding p_def using c[symmetric]
    by (auto simp: HighPerformanceMemoryPool_cinit_def Let_def initialize_blocks_def u
          allocate_def allocate_block_fast_def deallocate_def deallocate_block_fast_def
          find_block_def block_at_def set_block_def split: if_splits)
  with c le s w show ?thesis by (intro exI[of _ p0] exI[of _ p]) (simp add: p_def)
qed

text \<open>
  Claim C7 fails for a foreign object that carries the identity of a view of this pool.
  The dictionary is keyed by \<open>id(memview)\<close> and keeps no reference to the view, so once
  the caller has dropped a view without releasing it the interpreter may give its
  identity to another object. Here the pool has issued the view with identity 7 on the
  block at 4096; the object with identity 7 and address 8192, which the pool never
  issued, is accepted by \<open>deallocate\<close>: the block is zeroed and put on the free list,
  \<open>blocks_allocated\<close> falls to 0 and \<open>total_deallocations\<close> rises to 1.
\<close>

theorem foreign_handle_accepted:
  "\<forall>heap. \<exists>p0 p.
     HighPerformanceMemoryPool_cinit 4096 True heap 16 4 False = Inr p0 \<and>
     allocate p0 7 = (Some (7, 4096), p) \<and>
     issued p0 [Allocate 7] = [(7, 4096)] \<and>
     (7, 8192) \<notin> set (issued p0 [Allocate 7]) \<and>
     blocks_allocated p = 1 \<and> blocks_free p = 3 \<and> total_deallocations p = 0 \<and>
     release_accepted p (Some (7, 8192)) \<and>
     deallocate p (Some (7, 8192)) \<noteq> p \<and>
     blocks_allocated (deallocate p (Some (7, 8192))) = 0 \<and>
     blocks_free (deallocate p (Some (7, 8192))) = 4 \<and>
     total_deallocations (deallocate p (Some (7, 8192))) = 1 \<and>
     free_blocks (deallocate p (Some (7, 8192))) = Some 0"
proof
  fix heap :: "nat \<Rightarrow> memory_block"
  have u: "[0..<4] = [0, 1, 2, 3]" by (simp add: upt_rec)
  have d: "(16 :: u32) div 4 = 4" by (simp add: word_div_def)
  obtain p0 where c: "HighPerformanceMemoryPool_cinit 4096 True heap 16 4 False = Inr p0"
    by (simp add: HighPerformanceMemoryPool_cinit_def Let_def)
  obtain p where a: "allocate p0 7 = (Some (7, 4096), p)"
    and f: "blocks_allocated p = 1" "blocks_free p = 3" "total_deallocations p = 0"
    and r: "release_accepted p (Some (7, 8192))"
    and g: "blocks_allocated (deallocate p (Some (7, 8192))) = 0"
      "blocks_free (deallocate p (Some (7, 8192))) = 4"
      "total_deallocations (deallocate p (Some (7, 8192))) = 1"
      "free_blocks (deallocate p (Some (7, 8192))) = Some 0"
    using c[symmetric]
    by (auto simp: HighPerformanceMemoryPool_cinit_def Let_def d initialize_blocks_def u
          allocate_def allocate_block_fast_def deallocate_def deallocate_block_fast_def
          release_accepted_def find_block_def block_at_def set_block_def)
  from f(3) g(3) have ne: "deallocate p (Some (7, 8192)) \<noteq> p" by auto
  have i: "issued p0 [Allocate 7] = [(7, 4096)]" by (simp add: a)
  show "\<exists>p0 p.
     HighPerformanceMemoryPool_cinit 4096 True heap 16 4 False = Inr p0 \<and>
     allocate p0 7 = (Some (7, 4096), p) \<and>
     issued p0 [Allocate 7] = [(7, 4096)] \<and>
     (7, 8192) \<notin> set (issued p0 [Allocate 7]) \<and>
     blocks_allocated p = 1 \<and> blocks_free p = 3 \<and> total_deallocations p = 0 \<and>
     release_accepted p (Some (7, 8192)) \<and>
     deallocate p (Some (7, 8192)) \<noteq> p \<and>
     blocks_allocated (deallocate p (Some (7, 8192))) = 0 \<and>
     blocks_free (deallocate p (Some (7, 8192))) = 4 \<and>
     total_deallocations (deallocate p (Some (7, 8192))) = 1 \<and>
     free_blocks (deallocate p (Some (7, 8192))) = Some 0"
    using c a i f r ne g by (intro exI[of _ p0] exI[of _ p]) simp
qed

text \<open>
  Claim C7, where it holds. In every state reached from a constructed pool: releasing
  \<open>None\<close>, or an object whose identity no view issued by this pool has had, or more
  generally an object whose identity is not a key of the dictionary, leaves the whole pool
  unchanged, block contents, free list and counters included; releasing the same object a
  second time, with any releases between the two, leaves the pool unchanged, and so does
  freeing an address a second time in \<open>_deallocate_block_fast\<close>. The violation can be told
  from a valid release: a release that passes the guards adds one to
  \<open>total_deallocations\<close> and cannot pass them again, a release that does not pass them
  changes nothing but, at most, the dictionary. The witness is a pool with two blocks
  handed out, a foreign object and a double release.
\<close>

theorem offending_release_unchanged:
  assumes c: "HighPerformanceMemoryPool_cinit arena blocks_ok heap psize bsize mm = Inr p0"
    and p: "p = run_pool p0 ops"
  shows "deallocate p None = p \<and>
         (\<forall>view. fst view \<notin> fst ` set (issued p0 ops) \<longrightarrow> deallocate p (Some view) = p) \<and>
         (\<forall>view. allocated_views p (fst view) = None \<longrightarrow> deallocate p (Some view) = p) \<and>
         (\<forall>m ms. deallocate (run_pool (deallocate p m) (map Deallocate ms)) m
                    = run_pool (deallocate p m) (map Deallocate ms)) \<and>
         (\<forall>ptr. deallocate_block_fast (deallocate_block_fast p ptr) ptr
                  = deallocate_block_fast p ptr) \<and>
         (\<forall>m. release_accepted p m \<longrightarrow>
                total_deallocations (deallocate p m) = total_deallocations p + 1 \<and>
                total_deallocations (deallocate p m) \<noteq> total_deallocations p \<and>
                \<not> release_accepted (deallocate p m) m) \<and>
         (\<forall>m. \<not> release_accepted p m \<longrightarrow>
                (deallocate p m)\<lparr>allocated_views := allocated_views p\<rparr> = p)"
proof -
  note f = cinit_pool_fields[OF c]
  have len0: "length (all_blocks p0) = unat (num_blocks p0)" by (simp add: f)
  from run_pool_sum[of p0 ops] len0
  have len: "length (all_blocks p) = unat (num_blocks p)" by (simp add: p)
  have n: "deallocate p None = p" by (simp add: deallocate_def)
  have k: "deallocate p (Some view) = p" if "allocated_views p (fst view) = None" for view
    using that by (rule deallocate_unknown)
  have i: "deallocate p (Some view) = p" if "fst view \<notin> fst ` set (issued p0 ops)" for view
  proof -
    have "allocated_views p (fst view) = None"
    proof (rule ccontr)
      assume "allocated_views p (fst view) \<noteq> None"
      from run_pool_keys[OF this[unfolded p]] that show False by (simp add: f)
    qed
    then show ?thesis by (rule k)
  qed
  have d: "deallocate (run_pool (deallocate p m) (map Deallocate ms)) m
             = run_pool (deallocate p m) (map Deallocate ms)" for m ms
  proof (cases m)
    case None
    then show ?thesis by (simp add: deallocate_def)
  next
    case (Some view)
    from releases_keep_key_absent[OF deallocate_key_removed[of p view], of ms]
    show ?thesis unfolding Some by (rule deallocate_unknown)
  qed
  have na: "\<not> release_accepted (deallocate p m) m" for m
  proof (cases m)
    case None
    then show ?thesis by (simp add: release_accepted_def)
  next
    case (Some view)
    from deallocate_key_removed[of p view] show ?thesis
      by (simp add: Some release_accepted_def)
  qed
  have "total_deallocations p + 1 \<noteq> total_deallocations p" by simp
  then have t: "total_deallocations (deallocate p m) \<noteq> total_deallocations p"
    if "release_accepted p m" for m
    using release_accepted_total[OF that] by simp
  show ?thesis
    using n i k d na t release_accepted_total[of p] release_rejected[of p]
      deallocate_block_fast_twice[OF len]
    by blast
qed

theorem offending_release_unchanged_witness:
  "\<exists>p0 p. HighPerformanceMemoryPool_cinit 4096 True
              (\<lambda>i. \<lparr>blk_data = 0, blk_size = 0, blk_offset = 0, blk_in_use = False,
                    blk_next = None\<rparr>) 16 4 False = Inr p0 \<and>
     p = run_pool p0 [Allocate 1, Allocate 2] \<and>
     issued p0 [Allocate 1, Allocate 2] = [(1, 4096), (2, 4100)] \<and>
     fst (7 :: nat, 8192 :: nat) \<notin> fst ` set (issued p0 [Allocate 1, Allocate 2]) \<and>
     deallocate p (Some (7, 8192)) = p \<and>
     release_accepted p (Some (1, 4096)) \<and>
     deallocate p (Some (1, 4096)) \<noteq> p \<and>
     total_deallocations (deallocate p (Some (1, 4096))) = 1 \<and>
     blocks_allocated (deallocate p (Some (1, 4096))) = 1 \<and>
     \<not> release_accepted (deallocate p (Some (1, 4096))) (Some (1, 4096)) \<and>
     deallocate (deallocate p (Some (1, 4096))) (Some (1, 4096))
       = deallocate p (Some (1, 4096))"
proof -
  let ?ops = "[Allocate 1, Allocate 2]"
  obtain p0 where c: "HighPerformanceMemoryPool_cinit 4096 True
              (\<lambda>i. \<lparr>blk_data = 0, blk_size = 0, blk_offset = 0, blk_in_use = False,
                    blk_next = None\<rparr>) 16 4 False = Inr p0"
    by (simp add: HighPerformanceMemoryPool_cinit_def Let_def)
  have u: "[0..<4] = [0, 1, 2, 3]" by (simp add: upt_rec)
  have d: "(16 :: u32) div 4 = 4" by (simp add: word_div_def)
  define p where "p = run_pool p0 ?ops"
  have iss: "issued p0 ?ops = [(1, 4096), (2, 4100)]"
    and a: "release_accepted p (Some (1, 4096))" "total_deallocations p = 0"
    and b: "blocks_allocated (deallocate p (Some (1, 4096))) = 1"
    unfolding p_def using c[symmetric]
    by (auto simp: HighPerformanceMemoryPool_cinit_def Let_def d initialize_blocks_def u
          allocate_def allocate_block_fast_def release_accepted_def find_block_def
          deallocate_def deallocate_block_fast_def block_at_def set_block_def)
  have nin: "fst (7 :: nat, 8192 :: nat) \<notin> fst ` set (issued p0 ?ops)"
    by (simp only: iss) simp
  note t = offending_release_unchanged[OF c p_def]
  from t[THEN conjunct2, THEN conjunct1, rule_format, OF nin]
  have f: "deallocate p (Some (7, 8192)) = p" .
  from t[THEN conjunct2, THEN conjunct2, THEN conjunct2, THEN conjunct1, rule_format,
         of "Some (1, 4096)" "[]"]
  have dd: "deallocate (deallocate p (Some (1, 4096))) (Some (1, 4096))
              = deallocate p (Some (1, 4096))" by simp
  from t[THEN conjunct2, THEN conjunct2, THEN conjunct2, THEN conjunct2, THEN conjunct2,
         THEN conjunct1, rule_format, OF a(1)]
  have g: "total_deallocations (deallocate p (Some (1, 4096))) = total_deallocations p + 1"
    "total_deallocations (deallocate p (Some (1, 4096))) \<noteq> total_deallocations p"
    "\<not> release_accepted (deallocate p (Some (1, 4096))) (Some (1, 4096))" by simp_all
  from g(2) have ne: "deallocate p (Some (1, 4096)) \<noteq> p" by auto
  from c iss nin f a b dd g ne show ?thesis
    by (intro exI[of _ p0] exI[of _ p]) (simp add: p_def)
qed

section \<open>Latency tracker: statistics and dropped samples\<close>

subsection \<open>Rounding to the nearest double\<close>

lemma round_half_even_int [simp]: "round_half_even (real_of_int n) = n"
  by (simp add: round_half_even_def)

lemma round_half_even_bounds:
  "\<lfloor>y\<rfloor> \<le> round_half_even y" "round_half_even y \<le> \<lfloor>y\<rfloor> + 1"
  by (simp_all add: round_half_even_def Let_def)

lemma round_half_even_mono:
  assumes "y \<le> z"
  shows "round_half_even y \<le> round_half_even z"
proof (cases "\<lfloor>y\<rfloor> = \<lfloor>z\<rfloor>")
  case True
  then show ?thesis using assms
    by (auto simp: round_half_even_def Let_def)
next
  case False
  then have lt: "\<lfloor>y\<rfloor> + 1 \<le> \<lfloor>z\<rfloor>" using floor_mono[OF assms] by linarith
  have "round_half_even y \<le> \<lfloor>y\<rfloor> + 1" by (rule round_half_even_bounds)
  also note lt
  also have "\<lfloor>z\<rfloor> \<le> round_half_even z" by (rule round_half_even_bounds)
  finally show ?thesis .
qed

lemma double_ulp_pos: "0 < double_ulp x"
  by (simp add: double_ulp_def)

lemma round_double_nonneg:
  assumes "0 \<le> x"
  shows "0 \<le> round_double x"
proof (cases "x = 0")
  case True
  then show ?thesis by (simp add: round_double_def)
next
  case False
  have "0 \<le> x / double_ulp x" using assms double_ulp_pos[of x] by simp
  then have "0 \<le> \<lfloor>x / double_ulp x\<rfloor>" by simp
  then have "0 \<le> round_half_even (x / double_ulp x)"
    using round_half_even_bounds(1)[of "x / double_ulp x"] by linarith
  then show ?thesis using double_ulp_pos[of x] by (simp add: round_double_def False)
qed

lemma round_double_exact:
  assumes m: "\<bar>m\<bar> < 2 ^ 53" and e: "- 1074 \<le> e"
  shows "round_double (real_of_int m * 2 powr real_of_int e) = real_of_int m * 2 powr real_of_int e"
proof (cases "m = 0")
  case True
  then show ?thesis by (simp add: round_double_def)
next
  case False
  define x where "x = real_of_int m * 2 powr real_of_int e"
  have x0: "x \<noteq> 0" using False by (simp add: x_def)
  have absx: "\<bar>x\<bar> = real_of_int \<bar>m\<bar> * 2 powr real_of_int e" by (simp add: x_def abs_mult)
  have "real_of_int \<bar>m\<bar> < 2 ^ 53" using m by (metis of_int_less_numeral_power_cancel_iff)
  then have "real_of_int \<bar>m\<bar> < 2 powr 53" by simp
  then have "\<bar>x\<bar> < 2 powr 53 * 2 powr real_of_int e"
    unfolding absx by (intro mult_strict_right_mono) simp_all
  then have lt: "\<bar>x\<bar> < 2 powr real_of_int (53 + e)" by (simp add: powr_add)
  have "log 2 \<bar>x\<bar> < real_of_int (53 + e)"
    using lt x0 by (subst log_less_iff) auto
  then have "\<lfloor>log 2 \<bar>x\<bar>\<rfloor> < 53 + e" by linarith
  then have ex: "double_exponent x - 52 \<le> e" using e by (simp add: double_exponent_def)
  define d where "d = double_exponent x - 52"
  define k where "k = nat (e - d)"
  define u where "u = double_ulp x"
  have u: "u = 2 powr real_of_int d" by (simp add: u_def double_ulp_def d_def)
  have upos: "0 < u" by (simp add: u)
  have "e = d + int k" using ex by (simp add: k_def d_def)
  then have "2 powr real_of_int e = 2 powr (real_of_int d + real k)" by simp
  also have "\<dots> = u * 2 ^ k" by (simp add: u powr_add powr_realpow)
  finally have pe: "2 powr real_of_int e = u * 2 ^ k" .
  have xu: "x = real_of_int (m * 2 ^ k) * u" by (simp add: x_def pe)
  then have q: "x / u = real_of_int (m * 2 ^ k)" using upos by simp
  have "round_double x = real_of_int (round_half_even (x / u)) * u"
    using x0 by (simp add: round_double_def u_def)
  also have "\<dots> = real_of_int (m * 2 ^ k) * u" by (simp only: q round_half_even_int)
  also have "\<dots> = x" by (simp only: xu)
  finally show ?thesis by (simp only: x_def)
qed

lemma round_double_int:
  assumes "\<bar>n\<bar> < 2 ^ 53"
  shows "round_double (real_of_int n) = real_of_int n"
  using round_double_exact[OF assms, of 0] by simp

lemma round_double_nat:
  assumes "n < 2 ^ 53"
  shows "round_double (real n) = real n"
proof -
  have "\<bar>int n\<bar> < 2 ^ 53" using assms by simp
  from round_double_int[OF this] show ?thesis by simp
qed

lemma round_double_frac:
  assumes "\<bar>m\<bar> < 2 ^ 53" "k \<le> 1074"
  shows "round_double (real_of_int m / 2 ^ k) = real_of_int m / 2 ^ k"
proof -
  have "2 powr real_of_int (- int k) = 1 / 2 ^ k"
    by (simp add: powr_minus powr_realpow inverse_eq_divide)
  then show ?thesis using round_double_exact[OF assms(1), of "- int k"] assms(2) by simp
qed

lemma double_exponent_mono:
  assumes "0 < x" "x \<le> y"
  shows "double_exponent x \<le> double_exponent y"
proof -
  have "log 2 \<bar>x\<bar> \<le> log 2 \<bar>y\<bar>" using assms by simp
  then have "\<lfloor>log 2 \<bar>x\<bar>\<rfloor> \<le> \<lfloor>log 2 \<bar>y\<bar>\<rfloor>" by (rule floor_mono)
  then show ?thesis by (simp add: double_exponent_def)
qed

lemma round_double_upper:
  assumes "0 < x"
  shows "round_double x \<le> 2 powr real_of_int (double_exponent x + 1)"
proof -
  define e where "e = double_exponent x"
  define u where "u = double_ulp x"
  have u: "u = 2 powr real_of_int (e - 52)" by (simp add: u_def e_def double_ulp_def)
  have upos: "0 < u" by (simp add: u)
  have "\<lfloor>log 2 \<bar>x\<bar>\<rfloor> \<le> e" by (simp add: e_def double_exponent_def)
  then have "log 2 x < real_of_int (e + 1)" using assms by simp linarith
  then have "x < 2 powr real_of_int (e + 1)" using assms by (subst (asm) log_less_iff) auto
  also have "2 powr real_of_int (e + 1) = 2 ^ 53 * u"
  proof -
    have "real_of_int (e + 1) = 53 + real_of_int (e - 52)" by simp
    then have "2 powr real_of_int (e + 1) = 2 powr 53 * 2 powr real_of_int (e - 52)"
      by (simp only: powr_add)
    then show ?thesis by (simp add: u)
  qed
  finally have "x / u < 2 ^ 53" using upos by (simp add: pos_divide_less_eq)
  then have "x / u \<le> real_of_int (2 ^ 53)" by simp
  from round_half_even_mono[OF this] round_half_even_int[of "2 ^ 53"]
  have "round_half_even (x / u) \<le> 2 ^ 53" by simp
  then have "real_of_int (round_half_even (x / u)) \<le> 2 ^ 53"
    by (metis of_int_le_numeral_power_cancel_iff)
  then have "real_of_int (round_half_even (x / u)) * u \<le> 2 ^ 53 * u"
    using upos by (intro mult_right_mono) simp_all
  moreover have "round_double x = real_of_int (round_half_even (x / u)) * u"
    using assms by (simp add: round_double_def u_def)
  moreover have "2 powr real_of_int (double_exponent x + 1) = 2 ^ 53 * u"
  proof -
    have "real_of_int (e + 1) = 53 + real_of_int (e - 52)" by simp
    then have "2 powr real_of_int (e + 1) = 2 powr 53 * 2 powr real_of_int (e - 52)"
      by (simp only: powr_add)
    then show ?thesis by (simp add: u e_def)
  qed
  ultimately show ?thesis by simp
qed

lemma round_double_lower:
  assumes "0 < y" "- 1022 < double_exponent y"
  shows "2 powr real_of_int (double_exponent y) \<le> round_double y"
proof -
  define e where "e = double_exponent y"
  define u where "u = double_ulp y"
  have u: "u = 2 powr real_of_int (e - 52)" by (simp add: u_def e_def double_ulp_def)
  have upos: "0 < u" by (simp add: u)
  have pe: "2 powr real_of_int e = 2 ^ 52 * u"
  proof -
    have "real_of_int e = 52 + real_of_int (e - 52)" by simp
    then have "2 powr real_of_int e = 2 powr 52 * 2 powr real_of_int (e - 52)"
      by (simp only: powr_add)
    then show ?thesis by (simp add: u)
  qed
  have "e = \<lfloor>log 2 \<bar>y\<bar>\<rfloor>" using assms(2) by (simp add: e_def double_exponent_def max_def split: if_splits)
  then have "real_of_int e \<le> log 2 y" using assms(1) by simp
  then have "2 powr real_of_int e \<le> y" using assms(1) by (subst (asm) le_log_iff) auto
  then have "real_of_int (2 ^ 52) \<le> y / u" using upos by (simp add: pe pos_le_divide_eq)
  from round_half_even_mono[OF this] round_half_even_int[of "2 ^ 52"]
  have "2 ^ 52 \<le> round_half_even (y / u)" by simp
  then have "2 ^ 52 \<le> real_of_int (round_half_even (y / u))"
    by (metis of_int_numeral_le_iff numeral_power_le_of_int_cancel_iff)
  then have "2 ^ 52 * u \<le> real_of_int (round_half_even (y / u)) * u"
    using upos by (intro mult_right_mono) simp_all
  moreover have "round_double y = real_of_int (round_half_even (y / u)) * u"
    using assms by (simp add: round_double_def u_def)
  ultimately show ?thesis using pe by (simp add: e_def)
qed

lemma round_double_mono:
  assumes "0 \<le> x" "x \<le> y"
  shows "round_double x \<le> round_double y"
proof (cases "x = 0")
  case True
  then show ?thesis using round_double_nonneg[of y] assms by (simp add: round_double_def)
next
  case False
  then have x: "0 < x" and y: "0 < y" using assms by simp_all
  from double_exponent_mono[OF x assms(2)] have le: "double_exponent x \<le> double_exponent y" .
  show ?thesis
  proof (cases "double_exponent x = double_exponent y")
    case True
    then have u: "double_ulp y = double_ulp x" by (simp add: double_ulp_def)
    have "x / double_ulp x \<le> y / double_ulp x"
      using assms(2) double_ulp_pos[of x] by (simp add: divide_right_mono)
    from round_half_even_mono[OF this]
    have "real_of_int (round_half_even (x / double_ulp x)) * double_ulp x
            \<le> real_of_int (round_half_even (y / double_ulp x)) * double_ulp x"
      using double_ulp_pos[of x] by (intro mult_right_mono) simp_all
    then show ?thesis using x y by (simp add: round_double_def u)
  next
    case False
    with le have lt: "double_exponent x + 1 \<le> double_exponent y" by simp
    have "- 1022 \<le> double_exponent x" by (simp add: double_exponent_def)
    with lt have big: "- 1022 < double_exponent y" by simp
    have "round_double x \<le> 2 powr real_of_int (double_exponent x + 1)"
      by (rule round_double_upper[OF x])
    also have "\<dots> \<le> 2 powr real_of_int (double_exponent y)"
      using lt by (intro powr_mono) simp_all
    also have "\<dots> \<le> round_double y" by (rule round_double_lower[OF y big])
    finally show ?thesis .
  qed
qed

lemma round_double_scaled:
  assumes lo: "2 ^ 52 \<le> \<bar>x\<bar> * 2 ^ n" and hi: "\<bar>x\<bar> * 2 ^ n < 2 ^ 53" and n: "n \<le> 1074"
  shows "round_double x = real_of_int (round_half_even (x * 2 ^ n)) / 2 ^ n"
proof -
  define e where "e = 52 - int n"
  have x0: "x \<noteq> 0" using lo by auto
  have p': "2 powr - real n = 1 / 2 ^ n"
    by (simp add: powr_minus powr_realpow inverse_eq_divide)
  then have p: "2 powr real_of_int (- int n) = 1 / 2 ^ n" by simp
  have pe: "2 powr real_of_int e = 2 ^ 52 / 2 ^ n"
  proof -
    have "real_of_int e = 52 + real_of_int (- int n)" by (simp add: e_def)
    then have "2 powr real_of_int e = 2 powr 52 * 2 powr real_of_int (- int n)"
      by (simp only: powr_add)
    then show ?thesis by (simp add: p')
  qed
  have pe1: "2 powr real_of_int (e + 1) = 2 ^ 53 / 2 ^ n"
  proof -
    have "real_of_int (e + 1) = 53 + real_of_int (- int n)" by (simp add: e_def)
    then have "2 powr real_of_int (e + 1) = 2 powr 53 * 2 powr real_of_int (- int n)"
      by (simp only: powr_add)
    then show ?thesis by (simp add: p')
  qed
  have l: "2 powr real_of_int e \<le> \<bar>x\<bar>" unfolding pe using lo by (simp add: pos_divide_le_eq)
  have h: "\<bar>x\<bar> < 2 powr real_of_int (e + 1)" unfolding pe1 using hi by (simp add: pos_less_divide_eq)
  have "real_of_int e \<le> log 2 \<bar>x\<bar>" using l x0 by (subst le_log_iff) auto
  moreover have "log 2 \<bar>x\<bar> < real_of_int (e + 1)" using h x0 by (subst log_less_iff) auto
  ultimately have "\<lfloor>log 2 \<bar>x\<bar>\<rfloor> = e" by linarith
  moreover have "- 1022 \<le> e" using n by (simp add: e_def)
  ultimately have "double_exponent x = e" by (simp add: double_exponent_def)
  then have "double_ulp x = 2 powr real_of_int (- int n)" by (simp add: double_ulp_def e_def)
  then have u: "double_ulp x = 1 / 2 ^ n" by (simp only: p)
  show ?thesis using x0 by (simp add: round_double_def u)
qed

subsection \<open>Recording and the statistics\<close>

lemma c_trunc_range:
  assumes "- 1 < y" "y < 2 ^ 32"
  shows "0 \<le> c_trunc y \<and> c_trunc y < 2 ^ 32"
proof (cases "0 \<le> y")
  case True
  then have "c_trunc y = \<lfloor>y\<rfloor>" by (simp add: c_trunc_def)
  moreover have "0 \<le> \<lfloor>y\<rfloor>" using True by simp
  moreover have "\<lfloor>y\<rfloor> < 2 ^ 32" using assms(2) by (simp add: floor_less_iff)
  ultimately show ?thesis by simp
next
  case False
  then have "c_trunc y = \<lceil>y\<rceil>" by (simp add: c_trunc_def)
  moreover have "\<lceil>y\<rceil> = 0" using False assms(1) by (simp add: ceiling_eq_iff)
  ultimately show ?thesis by simp
qed

lemma double_to_uint32_ok:
  assumes "- 1 < y" "y < 2 ^ 32"
  shows "\<exists>w. double_to_uint32 y = Inr w \<and> real (unat w) = real_of_int (c_trunc y)"
proof -
  from c_trunc_range[OF assms] have r: "0 \<le> c_trunc y" "c_trunc y < 2 ^ 32" by simp_all
  have "uint (word_of_int (c_trunc y) :: u32) = c_trunc y"
    using r by (simp add: uint_word_of_int take_bit_int_eq_self)
  then have "int (unat (word_of_int (c_trunc y) :: u32)) = c_trunc y" by simp
  then have "real (unat (word_of_int (c_trunc y) :: u32)) = real_of_int (c_trunc y)"
    by (metis of_int_of_nat_eq)
  then show ?thesis using assms by (simp add: double_to_uint32_def)
qed

lemma c_mod_index:
  assumes "0 \<le> a" "0 < b"
  shows "0 \<le> c_mod a b \<and> c_mod a b < b"
proof (cases "a = 0")
  case True
  then show ?thesis using assms by (simp add: c_mod_def)
next
  case False
  then have "sgn a = 1" using assms(1) by simp
  then show ?thesis using assms by (simp add: c_mod_def)
qed

lemma add_sample_fast_ok:
  assumes wf: "tracker_wf t" and cnt: "sample_count t < 2 ^ 31 - 1"
  shows "\<exists>t'. add_sample_fast t w e p now = Inr t' \<and> tracker_wf t' \<and>
           sample_count t' = sample_count t + 1 \<and>
           total_samples t' = total_samples t + 1 \<and>
           max_samples t' = max_samples t \<and>
           min_latency_us t' =
             min (round_double (real (unat w) / 1000)) (min_latency_us t) \<and>
           max_latency_us t' =
             max (round_double (real (unat w) / 1000)) (max_latency_us t) \<and>
           sum_latency_us t' =
             round_double (sum_latency_us t + round_double (real (unat w) / 1000))"
proof -
  from wf have m: "0 < max_samples t" and l: "length (samples t) = nat (max_samples t)"
    and c: "0 \<le> sample_count t" by (simp_all add: tracker_wf_def)
  from c_mod_index[OF c m] have i: "0 \<le> c_mod (sample_count t) (max_samples t)"
    "c_mod (sample_count t) (max_samples t) < max_samples t" by simp_all
  have g: "\<not> (c_mod (sample_count t) (max_samples t) < 0 \<or>
              int (length (samples t)) \<le> c_mod (sample_count t) (max_samples t))"
    using i l m by simp
  show ?thesis
    using m g cnt c l
    by (simp add: add_sample_fast_def Let_def tracker_wf_def min_def max_def)
qed

lemma record_latency_ok:
  assumes wf: "tracker_wf t" and cnt: "sample_count t < 2 ^ 31 - 1"
    and x: "- 1 < round_double (x * 1000)" "round_double (x * 1000) < 2 ^ 32"
  shows "\<exists>t'. record_latency t x e p now = Inr t' \<and> tracker_wf t' \<and>
           sample_count t' = sample_count t + 1 \<and>
           total_samples t' = total_samples t + 1 \<and>
           max_samples t' = max_samples t \<and>
           min_latency_us t' = min (stored_us x) (min_latency_us t) \<and>
           max_latency_us t' = max (stored_us x) (max_latency_us t) \<and>
           sum_latency_us t' = round_double (sum_latency_us t + stored_us x)"
proof -
  from double_to_uint32_ok[OF x] obtain w where
    w: "double_to_uint32 (round_double (x * 1000)) = Inr w"
      "real (unat w) = real_of_int (c_trunc (round_double (x * 1000)))"
    by blast
  have s: "round_double (real (unat w) / 1000) = stored_us x"
    by (simp only: stored_us_def stored_ns_def w(2))
  from add_sample_fast_ok[OF wf cnt, of w "word_of_int e" "protocol_number p" now]
  show ?thesis by (simp add: record_latency_def w(1) s del: of_nat_unat)
qed

lemma record_latencies_ok:
  assumes "tracker_wf t" "sample_count t + int (length calls) < 2 ^ 31"
    and "\<forall>c \<in> set calls. - 1 < round_double (fst c * 1000) \<and>
                          round_double (fst c * 1000) < 2 ^ 32"
  shows "\<exists>t'. record_latencies t calls = Inr t' \<and> tracker_wf t' \<and>
           sample_count t' = sample_count t + int (length calls) \<and>
           total_samples t' = total_samples t + of_nat (length calls) \<and>
           max_samples t' = max_samples t \<and>
           min_latency_us t' =
             fold min (map (\<lambda>c. stored_us (fst c)) calls) (min_latency_us t) \<and>
           max_latency_us t' =
             fold max (map (\<lambda>c. stored_us (fst c)) calls) (max_latency_us t) \<and>
           sum_latency_us t' =
             foldl (\<lambda>s q. round_double (s + q)) (sum_latency_us t)
               (map (\<lambda>c. stored_us (fst c)) calls)"
  using assms
proof (induction calls arbitrary: t)
  case Nil
  then show ?case by simp
next
  case (Cons c calls)
  obtain x e p now where c: "c = (x, e, p, now)" by (cases c) auto
  have cnt: "sample_count t < 2 ^ 31 - 1" using Cons.prems(2) by simp
  have x: "- 1 < round_double (x * 1000)" "round_double (x * 1000) < 2 ^ 32"
    using Cons.prems(3) by (simp_all add: c)
  from record_latency_ok[OF Cons.prems(1) cnt x, of e p now] obtain t1 where
    r: "record_latency t x e p now = Inr t1" and wf1: "tracker_wf t1"
    and f: "sample_count t1 = sample_count t + 1" "total_samples t1 = total_samples t + 1"
      "max_samples t1 = max_samples t"
      "min_latency_us t1 = min (stored_us x) (min_latency_us t)"
      "max_latency_us t1 = max (stored_us x) (max_latency_us t)"
      "sum_latency_us t1 = round_double (sum_latency_us t + stored_us x)"
    by blast
  have c1: "sample_count t1 + int (length calls) < 2 ^ 31" using Cons.prems(2) f(1) by simp
  have v1: "\<forall>c \<in> set calls. - 1 < round_double (fst c * 1000) \<and>
                              round_double (fst c * 1000) < 2 ^ 32"
    using Cons.prems(3) by simp
  from Cons.IH[OF wf1 c1 v1] obtain t' where
    "record_latencies t1 calls = Inr t'" "tracker_wf t'"
    "sample_count t' = sample_count t1 + int (length calls)"
    "total_samples t' = total_samples t1 + of_nat (length calls)"
    "max_samples t' = max_samples t1"
    "min_latency_us t' = fold min (map (\<lambda>c. stored_us (fst c)) calls) (min_latency_us t1)"
    "max_latency_us t' = fold max (map (\<lambda>c. stored_us (fst c)) calls) (max_latency_us t1)"
    "sum_latency_us t' = foldl (\<lambda>s q. round_double (s + q)) (sum_latency_us t1)
                           (map (\<lambda>c. stored_us (fst c)) calls)"
    by blast
  then show ?case using r f by (simp add: c)
qed

lemma round_double_one: "round_double 1 = 1"
  using round_double_int[of 1] by simp

lemma round_double_hundred: "round_double 100 = 100"
  using round_double_int[of 100] by simp

lemma get_percentile_ok:
  assumes wf: "tracker_wf t" and pos: "0 < sample_count t" and cnt: "sample_count t < 2 ^ 31"
    and p: "0 \<le> pc" "pc \<le> 100"
  shows "\<exists>v. get_percentile t pc = Inr v"
proof -
  define ac where "ac = min (sample_count t) (max_samples t)"
  define a where "a = round_double (pc / 100)"
  define k where "k = real_of_int (ac - 1)"
  define y where "y = round_double (a * k)"
  define iy where "iy = \<lfloor>y\<rfloor>"
  define lat where "lat = sort (map (\<lambda>s. round_double (real (unat (latency_ns s)) / 1000))
                (take (nat ac) (samples t)))"
  from wf have m: "0 < max_samples t" and l: "length (samples t) = nat (max_samples t)"
    by (simp_all add: tracker_wf_def)
  have ac: "1 \<le> ac" "ac \<le> max_samples t" "ac < 2 ^ 31" using pos m cnt by (auto simp: ac_def)
  have r0: "0 \<le> k" using ac(1) by (simp add: k_def)
  have a0: "0 \<le> a" unfolding a_def using p(1) by (intro round_double_nonneg) simp
  have "pc / 100 \<le> 1" using p(2) by simp
  from round_double_mono[OF _ this] p(1) have a1: "a \<le> 1"
    by (simp add: a_def round_double_one)
  have "\<bar>ac - 1\<bar> < 2 ^ 53" using ac(1,3) by simp
  from round_double_int[OF this] have rk: "round_double k = k" by (simp only: k_def)
  have ak0: "0 \<le> a * k" using a0 r0 by (rule mult_nonneg_nonneg)
  have y0: "0 \<le> y" unfolding y_def using ak0 by (rule round_double_nonneg)
  have "a * k \<le> 1 * k" using a1 r0 by (rule mult_right_mono)
  then have "a * k \<le> k" by simp
  from round_double_mono[OF ak0 this] have y1: "y \<le> k" by (simp only: y_def rk)
  have "ac - 1 < 2 ^ 31" using ac(3) by simp
  then have "real_of_int (ac - 1) < real_of_int (2 ^ 31)" by (simp only: of_int_less_iff)
  then have "k < 2 ^ 31" by (simp add: k_def)
  then have y2: "y < 2 ^ 31" using y1 by simp
  have tr: "c_trunc y = iy" using y0 by (simp add: c_trunc_def iy_def)
  have i0: "0 \<le> iy" using y0 by (simp add: iy_def)
  have "y \<le> real_of_int (ac - 1)" using y1 by (simp only: k_def)
  then have i1: "iy \<le> ac - 1" unfolding iy_def by (subst floor_le_iff) linarith
  have d: "double_to_int y = Inr iy"
    using y0 y2 by (simp add: double_to_int_def tr)
  have len: "int (length lat) = ac" using l ac by (simp add: lat_def)
  have g1: "\<not> ac < 0" using ac(1) by simp
  have g2: "\<not> int (length (samples t)) < ac" using l ac m by simp
  have g3: "\<not> (iy < 0 \<or> int (length lat) \<le> iy)" using i0 i1 len by simp
  have "get_percentile t pc = Inr (lat ! nat iy)"
    unfolding get_percentile_def Let_def ac_def[symmetric] a_def[symmetric] k_def[symmetric]
      y_def[symmetric] lat_def[symmetric]
    using pos g1 g2 g3 d by simp
  then show ?thesis by blast
qed

lemma fold_min_Min: "fold min xs (a :: real) = Min (insert a (set xs))"
  using Min.set_eq_fold[of a xs] by simp

lemma fold_max_Max: "fold max xs (a :: real) = Max (insert a (set xs))"
  using Max.set_eq_fold[of a xs] by simp

lemma stored_us_nonneg:
  assumes "- 1 < round_double (x * 1000)" "round_double (x * 1000) < 2 ^ 32"
  shows "0 \<le> stored_us x"
proof -
  from c_trunc_range[OF assms] have "0 \<le> real_of_int (stored_ns x) / 1000"
    by (simp add: stored_ns_def)
  then show ?thesis unfolding stored_us_def by (rule round_double_nonneg)
qed

lemma round_double_eighths:
  assumes "j < 2 ^ 53"
  shows "round_double (real j / 8) = real j / 8"
proof -
  have "\<bar>int j\<bar> < 2 ^ 53" using assms by simp
  from round_double_frac[OF this, of 3] show ?thesis by simp
qed

lemma stored_us_eighths:
  assumes "round_double (real j / 8 * 1000) < 2 ^ 32"
  shows "stored_us (real j / 8) = real j / 8"
proof -
  have k: "real j / 8 * 1000 = real (125 * j)" by simp
  have lt: "125 * j < 2 ^ 32"
  proof (rule ccontr)
    assume "\<not> 125 * j < 2 ^ 32"
    then have "(2 :: nat) ^ 32 \<le> 125 * j" by simp
    then have "real ((2 :: nat) ^ 32) \<le> real (125 * j)" by (simp only: of_nat_le_iff)
    then have "(2 :: real) ^ 32 \<le> real (125 * j)" by simp
    from round_double_mono[OF _ this] round_double_nat[of "2 ^ 32"]
    have "2 ^ 32 \<le> round_double (real (125 * j))" by simp
    with assms show False by (simp only: k)
  qed
  then have "125 * j < 2 ^ 53" by simp
  from round_double_nat[OF this] have r: "round_double (real (125 * j)) = real (125 * j)" .
  have "c_trunc (real (125 * j)) = int (125 * j)"
    unfolding c_trunc_def by (simp only: of_nat_0_le_iff if_True floor_of_nat)
  then have n: "stored_ns (real j / 8) = int (125 * j)" by (simp only: stored_ns_def k r)
  have "j < 2 ^ 53" using lt by simp
  from round_double_eighths[OF this] show ?thesis by (simp add: stored_us_def n)
qed

lemma cinit_tracker_fields:
  assumes "UltraLowLatencyTracker_cinit ok m target now0 = Inr t0"
  shows "0 \<le> m" "max_samples t0 = m" "length (samples t0) = nat m" "sample_count t0 = 0"
    "total_samples t0 = 0" "min_latency_us t0 = 999999" "max_latency_us t0 = 0"
    "sum_latency_us t0 = 0"
  using assms by (auto simp: UltraLowLatencyTracker_cinit_def split: if_splits)

lemma unat64_length:
  assumes "n < 2 ^ 31"
  shows "unat (of_nat n :: u64) = n"
proof -
  have "(2 :: nat) ^ 31 < 2 ^ 64" by simp
  with assms have "n < 2 ^ 64" by linarith
  then show ?thesis by (simp add: unat_of_nat)
qed

lemma recorded_statistics:
  assumes c: "UltraLowLatencyTracker_cinit True m target now0 = Inr t0"
    and m: "0 < m"
    and ne: "calls \<noteq> []" and len: "length calls < 2 ^ 31"
    and valid: "\<forall>c \<in> set calls. - 1 < round_double (fst c * 1000) \<and>
                                 round_double (fst c * 1000) < 2 ^ 32"
  shows "\<exists>t st. record_latencies t0 calls = Inr t \<and>
           tracker_get_statistics c_pow t = Inr st \<and>
           ts_count st = length calls \<and>
           ts_min_us st = Min (insert 999999 (set (map (\<lambda>c. stored_us (fst c)) calls))) \<and>
           ts_max_us st = Max (set (map (\<lambda>c. stored_us (fst c)) calls)) \<and>
           ts_mean_us st =
             round_double (double_sum (map (\<lambda>c. stored_us (fst c)) calls)
                           / real (length calls))"
proof -
  let ?qs = "map (\<lambda>c. stored_us (fst c)) calls"
  note f = cinit_tracker_fields[OF c]
  have wf0: "tracker_wf t0" using f m by (simp add: tracker_wf_def)
  have l0: "sample_count t0 + int (length calls) < 2 ^ 31" using len f(4) by simp
  from record_latencies_ok[OF wf0 l0 valid] obtain t where
    r: "record_latencies t0 calls = Inr t" and wf: "tracker_wf t"
    and sc: "sample_count t = int (length calls)"
    and ts: "total_samples t = of_nat (length calls)"
    and mn: "min_latency_us t = fold min ?qs 999999"
    and mx: "max_latency_us t = fold max ?qs 0"
    and sm: "sum_latency_us t = double_sum ?qs"
    by (auto simp: f double_sum_def)
  have pos: "0 < sample_count t" using ne sc by simp
  have cnt: "sample_count t < 2 ^ 31" using len sc by simp
  have n: "unat (total_samples t) = length calls" using ts unat64_length[OF len] by simp
  have "length calls < 2 ^ 53" using len by simp
  from round_double_nat[OF this]
  have rn: "round_double (real (unat (total_samples t))) = real (length calls)"
    by (simp only: n)
  have "round_double (999 / 10) \<le> round_double 100"
    by (rule round_double_mono) simp_all
  then have p999: "0 \<le> round_double (999 / 10)" "round_double (999 / 10) \<le> 100"
    by (simp_all add: round_double_hundred round_double_nonneg)
  obtain p50 where p50: "get_percentile t 50 = Inr p50"
    using get_percentile_ok[OF wf pos cnt, of 50] by auto
  obtain p95 where p95: "get_percentile t 95 = Inr p95"
    using get_percentile_ok[OF wf pos cnt, of 95] by auto
  obtain p99 where p99: "get_percentile t 99 = Inr p99"
    using get_percentile_ok[OF wf pos cnt, of 99] by auto
  obtain p99_9 where p99_9: "get_percentile t (round_double (999 / 10)) = Inr p99_9"
    using get_percentile_ok[OF wf pos cnt p999] by auto
  obtain st where st: "tracker_get_statistics c_pow t = Inr st"
    and s1: "ts_count st = unat (total_samples t)"
    and s2: "ts_min_us st = min_latency_us t"
    and s3: "ts_max_us st = max_latency_us t"
    and s4: "ts_mean_us st
               = round_double (sum_latency_us t / round_double (real (unat (total_samples t))))"
    using pos
    by (simp add: tracker_get_statistics_def Let_def p50 p95 p99 p99_9 del: of_nat_unat)
  have qne: "set ?qs \<noteq> {}" using ne by simp
  have q0: "\<forall>q \<in> set ?qs. 0 \<le> q" using valid stored_us_nonneg by auto
  from ne obtain c0 where "c0 \<in> set calls" by (cases calls) auto
  then have "stored_us (fst c0) \<in> set ?qs" by simp
  then obtain q where q: "q \<in> set ?qs" by blast
  have "0 \<le> q" using q q0 by blast
  also have "q \<le> Max (set ?qs)" using q by (intro Max_ge) auto
  finally have "0 \<le> Max (set ?qs)" .
  then have "Max (insert 0 (set ?qs)) = Max (set ?qs)"
    using qne by (simp add: max_def)
  then have mx': "max_latency_us t = Max (set ?qs)" by (simp add: mx fold_max_Max)
  have mn': "min_latency_us t = Min (insert 999999 (set ?qs))" by (simp add: mn fold_min_Min)
  have s4': "ts_mean_us st = round_double (double_sum ?qs / real (length calls))"
    by (simp only: s4 rn sm)
  show ?thesis
    using r st s1 s2 s3 s4' n mx' mn' by (intro exI[of _ t] exI[of _ st]) simp
qed








lemma stored_us_examples: "stored_us (3 / 2) = 3 / 2" "stored_us 600 = 600"
  "stored_us 2000000 = 2000000"
proof -
  have "round_double (real 12 / 8 * 1000) < 2 ^ 32"
    using round_double_nat[of 1500] by simp
  from stored_us_eighths[OF this] show "stored_us (3 / 2) = 3 / 2" by simp
  have "round_double (real 4800 / 8 * 1000) < 2 ^ 32"
    using round_double_nat[of 600000] by simp
  from stored_us_eighths[OF this] show "stored_us 600 = 600" by simp
  have "round_double (real 16000000 / 8 * 1000) < 2 ^ 32"
    using round_double_nat[of 2000000000] by simp
  from stored_us_eighths[OF this] show "stored_us 2000000 = 2000000" by simp
qed

lemma valid_examples:
  "- 1 < round_double (3 / 2 * 1000) \<and> round_double (3 / 2 * 1000) < 2 ^ 32"
  "- 1 < round_double (600 * 1000) \<and> round_double (600 * 1000) < 2 ^ 32"
  "- 1 < round_double (2000000 * 1000) \<and> round_double (2000000 * 1000) < 2 ^ 32"
  using round_double_nat[of 1500] round_double_nat[of 600000]
    round_double_nat[of 2000000000] by simp_all


text \<open>
  Without the assumption on the minimum: a single latency of two seconds leaves
  \<open>min_us\<close> at the initial value of \<open>min_latency_us\<close>.
\<close>

lemma min_sentinel_example:
  "\<exists>t0 t st. UltraLowLatencyTracker_cinit True 4 500 0 = Inr t0 \<and>
     record_latencies t0 [(2000000, 0, ''TCP'', 0)] = Inr t \<and>
     tracker_get_statistics (powr) t = Inr st \<and>
     ts_count st = 1 \<and> ts_min_us st = 999999 \<and> ts_max_us st = 2000000"
proof -
  let ?calls = "[(2000000 :: real, 0 :: int, ''TCP'', 0 :: u64)]"
  obtain t0 where c: "UltraLowLatencyTracker_cinit True 4 500 0 = Inr t0"
    by (simp add: UltraLowLatencyTracker_cinit_def)
  have v: "\<forall>c \<in> set ?calls. - 1 < round_double (fst c * 1000) \<and>
                              round_double (fst c * 1000) < 2 ^ 32"
    using valid_examples by simp
  from recorded_statistics[OF c _ _ _ v, of "(powr)"] obtain t st where
    "record_latencies t0 ?calls = Inr t" "tracker_get_statistics (powr) t = Inr st"
    "ts_count st = 1" "ts_min_us st = 999999" "ts_max_us st = 2000000"
    by (auto simp: stored_us_examples)
  with c show ?thesis by (intro exI[of _ t0] exI[of _ t] exI[of _ st]) simp
qed

text \<open>
  Two stored values that the rounding of the products decides. The double nearest to
  \<open>0.29\<close> lies below \<open>0.29\<close>, its product with \<open>1000.0\<close> is rounded up to \<open>290.0\<close>,
  and \<open>record_latency\<close> stores 290 nanoseconds and reports the same double again. A
  difference of 1001 nanoseconds between two timestamps becomes the double nearest to
  \<open>1.001\<close> in \<open>record_packet_latency\<close>; its product with \<open>1000.0\<close> lies below 1001,
  and \<open>record_latency\<close> stores 1000 nanoseconds.
\<close>

lemma double_029: "round_double (29 / 100) = 5224175567749775 / 2 ^ 54"
proof -
  have "round_double (29 / 100)
      = real_of_int (round_half_even (29 / 100 * 2 ^ 54)) / 2 ^ 54"
    by (rule round_double_scaled) simp_all
  also have "round_half_even (29 / 100 * 2 ^ 54) = 5224175567749775"
    by (simp add: round_half_even_def Let_def)
  finally show ?thesis by simp
qed

lemma rounded_product_example:
  "stored_ns (round_double (29 / 100)) = 290"
  "stored_us (round_double (29 / 100)) = round_double (29 / 100)"
proof -
  have "round_double (5224175567749775 / 2 ^ 54 * 1000)
      = real_of_int (round_half_even (5224175567749775 / 2 ^ 54 * 1000 * 2 ^ 44)) / 2 ^ 44"
    by (rule round_double_scaled) simp_all
  also have "round_half_even (5224175567749775 / 2 ^ 54 * 1000 * 2 ^ 44) = 290 * 2 ^ 44"
    by (simp add: round_half_even_def Let_def)
  finally have p: "round_double (5224175567749775 / 2 ^ 54 * 1000) = 290" by simp
  show n: "stored_ns (round_double (29 / 100)) = 290"
    by (simp only: double_029 stored_ns_def p) (simp add: c_trunc_def)
  show "stored_us (round_double (29 / 100)) = round_double (29 / 100)"
    by (simp only: stored_us_def n) simp
qed

lemma round_trip_example:
  "stored_ns (round_double (1001 / 1000)) = 1000"
proof -
  have "round_double (1001 / 1000)
      = real_of_int (round_half_even (1001 / 1000 * 2 ^ 52)) / 2 ^ 52"
    by (rule round_double_scaled) simp_all
  also have "round_half_even (1001 / 1000 * 2 ^ 52) = 4508103226997866"
    by (simp add: round_half_even_def Let_def)
  finally have a: "round_double (1001 / 1000) = 4508103226997866 / 2 ^ 52" by simp
  have "round_double (4508103226997866 / 2 ^ 52 * 1000)
      = real_of_int (round_half_even (4508103226997866 / 2 ^ 52 * 1000 * 2 ^ 43)) / 2 ^ 43"
    by (rule round_double_scaled) simp_all
  also have "round_half_even (4508103226997866 / 2 ^ 52 * 1000 * 2 ^ 43) = 8804889115230207"
    by (simp add: round_half_even_def Let_def)
  finally have p: "round_double (4508103226997866 / 2 ^ 52 * 1000) = 8804889115230207 / 2 ^ 43"
    by simp
  show ?thesis
    by (simp only: a stored_ns_def p) (simp add: c_trunc_def)
qed

text \<open>
  Claim C9: \<open>record_packet_latency\<close> with \<open>recv_time_ns \<le> send_time_ns\<close> returns with
  the tracker as it was: the sample ring, \<open>sample_count\<close>, \<open>total_samples\<close>, the minimum,
  the maximum, the sums and \<open>violation_count\<close> are fields of the record, which is
  unchanged. The witness has equal and reversed timestamps, beside a pair in order, which
  is recorded.
\<close>

theorem invalid_timestamps_dropped:
  assumes "recv_time_ns \<le> send_time_ns"
  shows "record_packet_latency t send_time_ns recv_time_ns exchange_id0 protocol0 now = Inr t"
  using assms by (simp add: record_packet_latency_def)

theorem invalid_timestamps_dropped_witness:
  "\<exists>t0 t1. UltraLowLatencyTracker_cinit True 4 500 0 = Inr t0 \<and>
     (7 :: u64) \<le> 7 \<and> (7 :: u64) \<le> 9 \<and>
     record_packet_latency t0 7 7 1 ''TCP'' 12 = Inr t0 \<and>
     record_packet_latency t0 9 7 1 ''TCP'' 12 = Inr t0 \<and>
     record_packet_latency t0 7 9 1 ''TCP'' 12 = Inr t1 \<and>
     total_samples t1 = 1 \<and> sample_count t1 = 1 \<and> t1 \<noteq> t0"
proof -
  obtain t0 where c: "UltraLowLatencyTracker_cinit True 4 500 0 = Inr t0"
    by (simp add: UltraLowLatencyTracker_cinit_def)
  note f = cinit_tracker_fields[OF c]
  have wf0: "tracker_wf t0" using f by (simp add: tracker_wf_def)
  have a: "record_packet_latency t0 7 7 1 ''TCP'' 12 = Inr t0"
    by (rule invalid_timestamps_dropped) simp
  have b: "record_packet_latency t0 9 7 1 ''TCP'' 12 = Inr t0"
    by (rule invalid_timestamps_dropped) simp
  define x where "x = round_double (2 / 1000)"
  have x0: "0 \<le> x" unfolding x_def by (rule round_double_nonneg) simp
  have "round_double (2 / 1000) \<le> round_double 1" by (rule round_double_mono) simp_all
  then have x1: "x \<le> 1" by (simp add: x_def round_double_one)
  have p0: "0 \<le> round_double (x * 1000)" using x0 by (intro round_double_nonneg) simp
  have "round_double (x * 1000) \<le> round_double 1000"
    using x0 x1 by (intro round_double_mono) simp_all
  then have p1: "round_double (x * 1000) \<le> 1000" using round_double_nat[of 1000] by simp
  have v: "- 1 < round_double (x * 1000)" "round_double (x * 1000) < 2 ^ 32"
    using p0 p1 by simp_all
  have cnt: "sample_count t0 < 2 ^ 31 - 1" using f by simp
  from record_latency_ok[OF wf0 cnt v, of 1 "''TCP''" 12] obtain t1 where
    r: "record_latency t0 x 1 ''TCP'' 12 = Inr t1"
    and e: "sample_count t1 = sample_count t0 + 1" "total_samples t1 = total_samples t0 + 1"
    by blast
  have d: "record_packet_latency t0 7 9 1 ''TCP'' 12 = Inr t1"
    using r by (simp add: record_packet_latency_def Let_def x_def)
  from e f have e': "total_samples t1 = 1" "sample_count t1 = 1" by simp_all
  with f have "t1 \<noteq> t0" by auto
  with c a b d e' show ?thesis by (intro exI[of _ t0] exI[of _ t1]) simp
qed

end
